theory Spec2Isabelle
  imports Complex_Main "HOL-Library.Sublist"
begin

section \<open>Python strings\<close>

text \<open>
  A Python \<open>str\<close> is a sequence of Unicode code points and \<open>len\<close> counts code points.
  The punctuation marks of \<open>split_text\<close> are partly outside ASCII, so a character is
  modelled by its code point and a string by the list of its code points.
\<close>

type_synonym codepoint = nat
type_synonym pystr = "codepoint list"

text \<open>
  \<open>str.strip()\<close> without argument removes the characters for which CPython's
  \<open>Py_UNICODE_ISSPACE\<close> holds: U+0009..U+000D, U+001C..U+0020, U+0085, U+00A0, U+1680,
  U+2000..U+200A, U+2028, U+2029, U+202F, U+205F and U+3000.
\<close>

definition py_isspace :: "codepoint \<Rightarrow> bool" where
  "py_isspace c \<longleftrightarrow>
     (9 \<le> c \<and> c \<le> 13) \<or> (28 \<le> c \<and> c \<le> 32) \<or> c = 133 \<or> c = 160 \<or> c = 5760 \<or>
     (8192 \<le> c \<and> c \<le> 8202) \<or> c = 8232 \<or> c = 8233 \<or> c = 8239 \<or> c = 8287 \<or> c = 12288"

definition py_lstrip :: "pystr \<Rightarrow> pystr" where
  "py_lstrip s = dropWhile py_isspace s"

definition py_rstrip :: "pystr \<Rightarrow> pystr" where
  "py_rstrip s = rev (dropWhile py_isspace (rev s))"

definition py_strip :: "pystr \<Rightarrow> pystr" where
  "py_strip s = py_rstrip (py_lstrip s)"

text \<open>
  Slices \<open>s[:k]\<close> and \<open>s[k:]\<close> for an arbitrary integer \<open>k\<close>: a negative bound counts
  from the end of the string, and a bound outside the string is clamped.
\<close>

definition py_slice_to :: "'a list \<Rightarrow> int \<Rightarrow> 'a list" where
  "py_slice_to s k = (if 0 \<le> k then take (nat k) s else take (nat (int (length s) + k)) s)"

definition py_slice_from :: "'a list \<Rightarrow> int \<Rightarrow> 'a list" where
  "py_slice_from s k = (if 0 \<le> k then drop (nat k) s else drop (nat (int (length s) + k)) s)"

text \<open>
  \<open>s.rfind(p)\<close> for a one-character string \<open>p\<close>: the highest index at which the
  character occurs, or \<open>-1\<close>.
\<close>

fun py_rfind :: "'a list \<Rightarrow> 'a \<Rightarrow> int" where
  "py_rfind [] c = - 1"
| "py_rfind (x # xs) c =
     (let r = py_rfind xs c in if 0 \<le> r then r + 1 else if x = c then 0 else - 1)"

section \<open>split_text\<close>

text \<open>
  The list \<open>punctuations\<close> of \<open>split_text\<close>, in source order: the full-width marks
  U+3002, U+FF01, U+FF1F, U+FF0C, U+3001, U+FF1B, then \<open>. ! ? , ;\<close> and the space.
\<close>

definition punctuations :: "codepoint list" where
  "punctuations = [12290, 65281, 65311, 65292, 12289, 65307, 46, 33, 63, 44, 59, 32]"

text \<open>
  The body of the \<open>for p in punctuations\<close> loop: one \<open>rfind\<close> in the window
  \<open>text[:max_len]\<close> per punctuation mark, keeping the larger position.
\<close>

definition scan_step :: "pystr \<Rightarrow> int \<Rightarrow> int \<Rightarrow> codepoint \<Rightarrow> int" where
  "scan_step text max_len split_pos p =
     (let pos = py_rfind (py_slice_to text max_len) p
      in if pos > split_pos then pos else split_pos)"

definition scan_punctuations :: "pystr \<Rightarrow> int \<Rightarrow> int" where
  "scan_punctuations text max_len = foldl (scan_step text max_len) (- 1) punctuations"

text \<open>The split position of one iteration of the \<open>while\<close> loop, after the forced split.\<close>

definition find_split_pos :: "pystr \<Rightarrow> int \<Rightarrow> int" where
  "find_split_pos text max_len =
     (let split_pos = scan_punctuations text max_len
      in if split_pos \<le> 0 then max_len - 1 else split_pos)"

definition chunk_of :: "pystr \<Rightarrow> int \<Rightarrow> pystr" where
  "chunk_of text max_len = py_strip (py_slice_to text (find_split_pos text max_len + 1))"

definition rest_of :: "pystr \<Rightarrow> int \<Rightarrow> pystr" where
  "rest_of text max_len = py_strip (py_slice_from text (find_split_pos text max_len + 1))"

text \<open>
  The \<open>while len(text) > max_len\<close> loop with the statements after it. The loop need not
  end for every \<open>max_len\<close> (it does not for \<open>max_len = 0\<close> and a text without white
  space), so the result is optional: \<open>None\<close> stands for a loop that runs forever.
\<close>

partial_function (option) split_loop :: "pystr \<Rightarrow> int \<Rightarrow> pystr list \<Rightarrow> pystr list option" where
  "split_loop text max_len result =
     (if int (length text) > max_len
      then split_loop (rest_of text max_len) max_len (result @ [chunk_of text max_len])
      else Some (if text \<noteq> [] then result @ [text] else result))"

definition split_text :: "pystr \<Rightarrow> int \<Rightarrow> pystr list option" where
  "split_text text max_len =
     (if int (length text) \<le> max_len then Some [text] else split_loop text max_len [])"

text \<open>
  For the reconstruction of a text from its chunks: a string of white space only, and the
  chunks laid out in order with a gap before each chunk and a gap after the last.
\<close>

definition all_space :: "pystr \<Rightarrow> bool" where
  "all_space s \<longleftrightarrow> (\<forall>c \<in> set s. py_isspace c)"

fun interleave_gaps :: "pystr list \<Rightarrow> pystr list \<Rightarrow> pystr" where
  "interleave_gaps (g # gaps) (c # chunks) = g @ c @ interleave_gaps gaps chunks"
| "interleave_gaps gaps [] = concat gaps"
| "interleave_gaps [] chunks = concat chunks"

section \<open>Python floats\<close>

text \<open>
  A Python \<open>float\<close> is an IEEE 754 binary64 number: a finite one, which is a rational
  \<open>n * 2 ^ e\<close> with \<open>\<bar>n\<bar> < 2 ^ 53\<close> and \<open>- 1074 \<le> e \<le> 971\<close>, one of the two infinities, or
  NaN. A finite float is modelled by the rational number it denotes. The sign of zero is
  not modelled: the two zeros compare equal, and no operation of the program divides by a
  zero.
\<close>

datatype pyfloat = Finite rat | PosInf | NegInf | NaN

text \<open>Rounding a rational to the nearest integer, a tie to the even neighbour.\<close>

definition round_half_even :: "rat \<Rightarrow> int" where
  "round_half_even x =
     (let f = \<lfloor>x\<rfloor>; r = x - of_int f
      in if r < 1 / 2 then f else if r > 1 / 2 then f + 1 else if even f then f else f + 1)"

text \<open>The number of binary digits of a natural number (\<open>int.bit_length\<close>).\<close>

fun bit_length :: "nat \<Rightarrow> nat" where
  "bit_length n = (if n = 0 then 0 else Suc (bit_length (n div 2)))"

declare bit_length.simps [simp del]

text \<open>
  The binary exponent of a positive rational: \<open>binade x = k\<close> where
  \<open>2 ^ k \<le> x < 2 ^ (k + 1)\<close>.
\<close>

definition binade :: "rat \<Rightarrow> int" where
  "binade x = (if 1 \<le> x then int (bit_length (nat \<lfloor>x\<rfloor>)) - 1
               else - int (bit_length (nat (\<lceil>1 / x\<rceil> - 1))))"

text \<open>
  The spacing of the doubles around \<open>x\<close>: \<open>2 ^ (k - 52)\<close> in the binade \<open>k\<close> of \<open>x\<close>, and
  \<open>2 ^ (- 1074)\<close> below the normal range, where the doubles are the subnormal numbers.
\<close>

definition grid_exp :: "rat \<Rightarrow> int" where
  "grid_exp x = max (binade \<bar>x\<bar>) (- 1022)"

definition quantum :: "rat \<Rightarrow> rat" where
  "quantum x = 2 powi (max (binade \<bar>x\<bar>) (- 1022) - 52)"

text \<open>
  Rounding to the nearest multiple of the spacing, a tie to the even multiple, as if the
  exponent had no upper bound.
\<close>

definition round_binary64 :: "rat \<Rightarrow> rat" where
  "round_binary64 x =
     (if x = 0 then 0 else of_int (round_half_even (x / quantum x)) * quantum x)"

text \<open>
  The float that an arithmetic operation returns for the exact result \<open>x\<close>: \<open>x\<close> rounded
  to the nearest double, and an infinity when the rounded magnitude reaches \<open>2 ^ 1024\<close>
  (IEEE 754 overflow in the default rounding mode, which Python float arithmetic does not
  trap).
\<close>

definition to_double :: "rat \<Rightarrow> pyfloat" where
  "to_double x =
     (let r = round_binary64 x
      in if 2 ^ 1024 \<le> r then PosInf else if r \<le> - (2 ^ 1024) then NegInf else Finite r)"

fun is_finite :: "pyfloat \<Rightarrow> bool" where
  "is_finite (Finite x) = True"
| "is_finite a = False"

fun float_negative :: "pyfloat \<Rightarrow> bool" where
  "float_negative (Finite x) = (x < 0)"
| "float_negative NegInf = True"
| "float_negative a = False"

text \<open>\<open>a <= b\<close> on floats: false whenever an operand is NaN.\<close>

fun float_le :: "pyfloat \<Rightarrow> pyfloat \<Rightarrow> bool" where
  "float_le NaN b = False"
| "float_le a NaN = False"
| "float_le NegInf b = True"
| "float_le a PosInf = True"
| "float_le (Finite x) (Finite y) = (x \<le> y)"
| "float_le a b = False"

text \<open>
  \<open>a + b\<close>, \<open>a - b\<close> and \<open>a * b\<close>: the exact result rounded by \<open>to_double\<close> on finite
  operands; NaN for a NaN operand, for \<open>inf - inf\<close> and for \<open>0 * inf\<close>; otherwise the
  infinity of the sign that the operation gives.
\<close>

fun float_add :: "pyfloat \<Rightarrow> pyfloat \<Rightarrow> pyfloat" where
  "float_add (Finite x) (Finite y) = to_double (x + y)"
| "float_add NaN b = NaN"
| "float_add a NaN = NaN"
| "float_add PosInf NegInf = NaN"
| "float_add NegInf PosInf = NaN"
| "float_add PosInf b = PosInf"
| "float_add a PosInf = PosInf"
| "float_add NegInf b = NegInf"
| "float_add a NegInf = NegInf"

fun float_sub :: "pyfloat \<Rightarrow> pyfloat \<Rightarrow> pyfloat" where
  "float_sub (Finite x) (Finite y) = to_double (x - y)"
| "float_sub NaN b = NaN"
| "float_sub a NaN = NaN"
| "float_sub PosInf PosInf = NaN"
| "float_sub NegInf NegInf = NaN"
| "float_sub PosInf b = PosInf"
| "float_sub a NegInf = PosInf"
| "float_sub NegInf b = NegInf"
| "float_sub a PosInf = NegInf"

fun float_mul :: "pyfloat \<Rightarrow> pyfloat \<Rightarrow> pyfloat" where
  "float_mul (Finite x) (Finite y) = to_double (x * y)"
| "float_mul a b =
     (if a = NaN \<or> b = NaN \<or> a = Finite 0 \<or> b = Finite 0 then NaN
      else if float_negative a = float_negative b then PosInf else NegInf)"

text \<open>
  \<open>a / b\<close> for a divisor that is not zero (Python raises \<open>ZeroDivisionError\<close> on a zero
  divisor; the one division of the program is guarded by \<open>len(parts) > 0\<close>).
\<close>

fun float_truediv :: "pyfloat \<Rightarrow> pyfloat \<Rightarrow> pyfloat" where
  "float_truediv (Finite x) (Finite y) = to_double (x / y)"
| "float_truediv NaN b = NaN"
| "float_truediv a NaN = NaN"
| "float_truediv (Finite x) b = Finite 0"
| "float_truediv a (Finite y) = (if float_negative a = (y < 0) then PosInf else NegInf)"
| "float_truediv a b = NaN"

text \<open>
  The conversion of an \<open>int\<close> operand in mixed arithmetic (\<open>float(n)\<close>): the nearest
  double. Python raises \<open>OverflowError\<close> for an \<open>int\<close> of magnitude \<open>2 ^ 1024\<close> or more;
  the operands converted by the program are a list length and a list index, which are
  below \<open>2 ^ 63\<close>.
\<close>

definition float_of_int :: "int \<Rightarrow> pyfloat" where
  "float_of_int n = Finite (round_binary64 (of_int n))"

text \<open>
  \<open>round(x, 2)\<close> on a float: CPython rounds the exact value of a finite \<open>x\<close> to two decimal
  places, a tie to the even digit, and returns the double nearest to that decimal; an
  infinity and NaN are returned as they are. (A double of magnitude \<open>2 ^ 53\<close> or more is a
  whole number, so the decimal is \<open>x\<close> itself and the result is finite.)
\<close>

fun py_round2 :: "pyfloat \<Rightarrow> pyfloat" where
  "py_round2 (Finite x) = to_double (of_int (round_half_even (x * 100)) / 100)"
| "py_round2 a = a"

section \<open>The conversion loop of main\<close>

text \<open>
  A segment of the recogniser (\<open>segment.start\<close>, \<open>segment.end\<close>, \<open>segment.text\<close>) and
  an element \<open>{"time": \<dots>, "text": \<dots>}\<close> of \<open>subtitles["data"]\<close>.
\<close>

record segment =
  seg_start :: pyfloat
  seg_end :: pyfloat
  seg_text :: pystr

record subtitle =
  sub_time :: pyfloat
  sub_text :: pystr

definition MAX_TEXT_LENGTH :: int where
  "MAX_TEXT_LENGTH = 25"

text \<open>\<open>duration / len(parts) if len(parts) > 0 else 0\<close>\<close>

definition time_per_part :: "pyfloat \<Rightarrow> nat \<Rightarrow> pyfloat" where
  "time_per_part duration n =
     (if n > 0 then float_truediv duration (float_of_int (int n)) else Finite 0)"

text \<open>\<open>round(start_time + j * time_per_part, 2)\<close>\<close>

definition part_time :: "pyfloat \<Rightarrow> pyfloat \<Rightarrow> nat \<Rightarrow> pyfloat" where
  "part_time start_time tpp j =
     py_round2 (float_add start_time (float_mul (float_of_int (int j)) tpp))"

text \<open>The entries appended in the branch \<open>len(text) > MAX_TEXT_LENGTH\<close>.\<close>

definition split_entries :: "pyfloat \<Rightarrow> pyfloat \<Rightarrow> pystr list \<Rightarrow> subtitle list" where
  "split_entries start_time end_time parts =
     (let duration = float_sub end_time start_time;
          tpp = time_per_part duration (length parts)
      in map (\<lambda>(j, part). \<lparr>sub_time = part_time start_time tpp j, sub_text = part\<rparr>)
           (enumerate 0 parts))"

text \<open>
  The body of \<open>for i, segment in enumerate(segment_list)\<close>: the entries that one
  segment appends to \<open>subtitles["data"]\<close>. The progress output is left out.
\<close>

definition process_segment :: "segment \<Rightarrow> subtitle list option" where
  "process_segment seg =
     (let text = py_strip (seg_text seg);
          start_time = py_round2 (seg_start seg);
          end_time = py_round2 (seg_end seg)
      in if int (length text) > MAX_TEXT_LENGTH
         then (case split_text text MAX_TEXT_LENGTH of
                 None \<Rightarrow> None
               | Some parts \<Rightarrow> Some (split_entries start_time end_time parts))
         else Some [\<lparr>sub_time = start_time, sub_text = text\<rparr>])"

text \<open>The loop over the segments, started with \<open>{"data": []}\<close>.\<close>

fun convert_segments :: "subtitle list \<Rightarrow> segment list \<Rightarrow> subtitle list option" where
  "convert_segments data [] = Some data"
| "convert_segments data (seg # segs) =
     (case process_segment seg of
        None \<Rightarrow> None
      | Some entries \<Rightarrow> convert_segments (data @ entries) segs)"

text \<open>
  The time that the specification gives for the chunk at index \<open>j\<close> of \<open>n\<close>:
  \<open>start + j * (end - start) / n\<close> on the start and end of the segment itself, rounded to two
  decimal places; once evaluated as the Python expression of that shape, once as exact
  arithmetic on a finite start and end.
\<close>

definition spec_chunk_time :: "pyfloat \<Rightarrow> pyfloat \<Rightarrow> nat \<Rightarrow> nat \<Rightarrow> pyfloat" where
  "spec_chunk_time start_t end_t n j =
     py_round2 (float_add start_t
       (float_truediv (float_mul (float_of_int (int j)) (float_sub end_t start_t))
          (float_of_int (int n))))"

fun spec_chunk_time_exact :: "pyfloat \<Rightarrow> pyfloat \<Rightarrow> nat \<Rightarrow> nat \<Rightarrow> pyfloat" where
  "spec_chunk_time_exact (Finite s) (Finite e) n j =
     py_round2 (Finite (s + of_nat j * (e - s) / of_nat n))"
| "spec_chunk_time_exact start_t end_t n j = NaN"

section \<open>resolve_model_path\<close>

text \<open>
  What \<open>resolve_model_path\<close> reads of its environment: \<open>os.path.isdir\<close>,
  \<open>os.path.exists\<close>, \<open>os.listdir\<close> (in listing order) and \<open>os.environ\<close>. A path is the
  string of its bytes. The messages written to standard error are left out.
\<close>

record filesystem =
  isdir :: "string \<Rightarrow> bool"
  path_exists :: "string \<Rightarrow> bool"
  listdir :: "string \<Rightarrow> string list"
  environ :: "string \<Rightarrow> string option"

text \<open>\<open>os.path.join(a, b)\<close> of \<open>posixpath\<close>.\<close>

definition path_join :: "string \<Rightarrow> string \<Rightarrow> string" where
  "path_join a b =
     (if b \<noteq> [] \<and> hd b = CHR ''/'' then b
      else if a = [] \<or> last a = CHR ''/'' then a @ b
      else a @ ''/'' @ b)"

definition model_map :: "string \<Rightarrow> string option" where
  "model_map = map_of
     [(''tiny'', ''models--Systran--faster-whisper-tiny''),
      (''base'', ''models--Systran--faster-whisper-base''),
      (''small'', ''models--Systran--faster-whisper-small''),
      (''medium'', ''models--Systran--faster-whisper-medium''),
      (''large'', ''models--Systran--faster-whisper-large-v3''),
      (''large-v3'', ''models--Systran--faster-whisper-large-v3'')]"

text \<open>\<open>os.environ.get('WHISPER_MODELS_DIR', '/root/.cache/huggingface')\<close>\<close>

definition models_dir :: "filesystem \<Rightarrow> string" where
  "models_dir fs =
     (case environ fs ''WHISPER_MODELS_DIR'' of
        Some d \<Rightarrow> d
      | None \<Rightarrow> ''/root/.cache/huggingface'')"

text \<open>\<open>os.path.join(models_dir, model_folder, 'snapshots')\<close>\<close>

definition snapshots_dir :: "filesystem \<Rightarrow> string \<Rightarrow> string" where
  "snapshots_dir fs model_folder =
     path_join (path_join (models_dir fs) model_folder) ''snapshots''"

text \<open>
  Whether a snapshot of the listing is a directory that holds \<open>model.bin\<close>, and the loop
  over the listing, which returns at the first such snapshot.
\<close>

definition has_model_bin :: "filesystem \<Rightarrow> string \<Rightarrow> bool" where
  "has_model_bin fs dir \<longleftrightarrow> isdir fs dir \<and> path_exists fs (path_join dir ''model.bin'')"

fun find_snapshot :: "filesystem \<Rightarrow> string \<Rightarrow> string list \<Rightarrow> string option" where
  "find_snapshot fs sdir [] = None"
| "find_snapshot fs sdir (snapshot # rest) =
     (let snapshot_path = path_join sdir snapshot
      in if has_model_bin fs snapshot_path then Some snapshot_path
         else find_snapshot fs sdir rest)"

definition resolve_model_path :: "filesystem \<Rightarrow> string \<Rightarrow> string" where
  "resolve_model_path fs model_name =
     (if has_model_bin fs model_name then model_name
      else case model_map model_name of
             None \<Rightarrow> model_name
           | Some model_folder \<Rightarrow>
               (let sdir = snapshots_dir fs model_folder;
                    found = (if isdir fs sdir then find_snapshot fs sdir (listdir fs sdir)
                             else None)
                in case found of Some snapshot_path \<Rightarrow> snapshot_path | None \<Rightarrow> model_name))"

section \<open>Example inputs\<close>

text \<open>A file system without any directory, and no environment variable set.\<close>

definition empty_fs :: filesystem where
  "empty_fs = \<lparr>isdir = (\<lambda>p. False), path_exists = (\<lambda>p. False), listdir = (\<lambda>p. []),
     environ = (\<lambda>v. None)\<rparr>"

text \<open>A segment from 0 s to 1 s whose text is two spaces.\<close>

definition blank_segment :: segment where
  "blank_segment = \<lparr>seg_start = Finite 0, seg_end = Finite 1, seg_text = [32, 32]\<rparr>"

text \<open>
  The text \<open>aaa,\<close> followed by 25 times \<open>b\<close> and \<open>ccc\<close> (32 characters), in a segment from
  0 s to 10 s and in a segment from 0.004 s to 10.004 s.
\<close>

definition long_text :: pystr where
  "long_text = [97, 97, 97, 44,
     98, 98, 98, 98, 98, 98, 98, 98, 98, 98, 98, 98, 98, 98, 98, 98, 98, 98, 98, 98, 98, 98, 98,
     98, 98, 99, 99, 99]"

definition long_segment :: segment where
  "long_segment = \<lparr>seg_start = Finite 0, seg_end = Finite 10, seg_text = long_text\<rparr>"

definition shifted_segment :: segment where
  "shifted_segment =
     \<lparr>seg_start = to_double (1 / 250), seg_end = to_double (2501 / 250), seg_text = long_text\<rparr>"

text \<open>
  The same text in a segment from \<open>-1e308\<close> s to \<open>1e308\<close> s, two finite floats whose
  difference is not a finite float.
\<close>

definition huge_segment :: segment where
  "huge_segment =
     \<lparr>seg_start = to_double (- (10 ^ 308)), seg_end = to_double (10 ^ 308), seg_text = long_text\<rparr>"

section \<open>Properties of the string operations\<close>

lemma length_py_strip_le: "length (py_strip s) \<le> length s"
  unfolding py_strip_def py_rstrip_def py_lstrip_def
  by (metis length_dropWhile_le length_rev order_trans)

lemma py_rfind_lower: "- 1 \<le> py_rfind s c"
  by (induction s) (auto simp: Let_def)

lemma py_rfind_upper: "py_rfind s c < int (length s)"
  by (induction s) (auto simp: Let_def)

lemma py_rfind_neg_iff: "py_rfind s c < 0 \<longleftrightarrow> c \<notin> set s"
  by (induction s) (auto simp: Let_def)

lemma py_rfind_nth: "0 \<le> py_rfind s c \<Longrightarrow> s ! nat (py_rfind s c) = c"
proof (induction s)
  case Nil
  then show ?case by simp
next
  case (Cons x xs)
  show ?case
  proof (cases "0 \<le> py_rfind xs c")
    case True
    with Cons.IH show ?thesis by (simp add: Let_def nat_add_distrib)
  next
    case False
    with Cons.prems show ?thesis by (simp add: Let_def split: if_splits)
  qed
qed

lemma py_rfind_greatest: "i < length s \<Longrightarrow> s ! i = c \<Longrightarrow> int i \<le> py_rfind s c"
proof (induction s arbitrary: i)
  case Nil
  then show ?case by simp
next
  case (Cons x xs)
  show ?case
  proof (cases i)
    case 0
    with Cons.prems show ?thesis using py_rfind_lower[of xs c] by (auto simp: Let_def)
  next
    case (Suc j)
    with Cons.prems have "j < length xs" "xs ! j = c" by auto
    from Cons.IH[OF this] Suc show ?thesis by (auto simp: Let_def)
  qed
qed

lemma scan_step_bounds:
  "- 1 \<le> sp \<Longrightarrow> sp < int (length (py_slice_to t m)) \<or> sp = - 1 \<Longrightarrow>
   - 1 \<le> scan_step t m sp p \<and> (scan_step t m sp p < int (length (py_slice_to t m)) \<or> scan_step t m sp p = - 1)"
  using py_rfind_upper[of "py_slice_to t m" p]
  by (auto simp: scan_step_def Let_def)

lemma foldl_scan_bounds:
  "- 1 \<le> sp \<Longrightarrow> sp < int (length (py_slice_to t m)) \<or> sp = - 1 \<Longrightarrow>
   - 1 \<le> foldl (scan_step t m) sp ps \<and>
   (foldl (scan_step t m) sp ps < int (length (py_slice_to t m)) \<or> foldl (scan_step t m) sp ps = - 1)"
proof (induction ps arbitrary: sp)
  case Nil
  then show ?case by simp
next
  case (Cons p ps)
  from scan_step_bounds[OF Cons.prems] Cons.IH[of "scan_step t m sp p"]
  show ?case by simp
qed

lemma scan_punctuations_bounds:
  "- 1 \<le> scan_punctuations t m"
  "scan_punctuations t m < int (length (py_slice_to t m)) \<or> scan_punctuations t m = - 1"
  using foldl_scan_bounds[of "- 1" t m punctuations]
  by (simp_all add: scan_punctuations_def)

lemma length_py_slice_to: "0 \<le> m \<Longrightarrow> length (py_slice_to s m) = min (nat m) (length s)"
  by (simp add: py_slice_to_def)

lemma find_split_pos_bounds:
  assumes "1 \<le> m"
  shows "0 \<le> find_split_pos t m" "find_split_pos t m \<le> m - 1"
  using assms scan_punctuations_bounds[of t m] length_py_slice_to[of m t]
  by (auto simp: find_split_pos_def Let_def)

lemma length_rest_of:
  assumes "1 \<le> m" "int (length t) > m"
  shows "length (rest_of t m) < length t"
proof -
  have "length (py_slice_from t (find_split_pos t m + 1)) < length t"
    using find_split_pos_bounds[OF assms(1), of t] assms
    by (auto simp: py_slice_from_def)
  with length_py_strip_le[of "py_slice_from t (find_split_pos t m + 1)"]
  show ?thesis by (simp add: rest_of_def)
qed

lemma length_chunk_of:
  assumes "1 \<le> m"
  shows "int (length (chunk_of t m)) \<le> m"
proof -
  have "int (length (py_slice_to t (find_split_pos t m + 1))) \<le> m"
    using find_split_pos_bounds[OF assms, of t]
    by (auto simp: py_slice_to_def)
  with length_py_strip_le[of "py_slice_to t (find_split_pos t m + 1)"]
  show ?thesis by (simp add: chunk_of_def)
qed

lemma split_loop_acc:
  "1 \<le> m \<Longrightarrow> split_loop t m acc = map_option ((@) acc) (split_loop t m [])"
proof (induction "length t" arbitrary: t acc rule: less_induct)
  case less
  show ?case
  proof (cases "int (length t) > m")
    case True
    have lt: "length (rest_of t m) < length t"
      using length_rest_of[OF less.prems True] .
    have "split_loop t m acc = split_loop (rest_of t m) m (acc @ [chunk_of t m])"
      using True by (subst split_loop.simps) simp
    also have "\<dots> = map_option ((@) (acc @ [chunk_of t m])) (split_loop (rest_of t m) m [])"
      using less.hyps[OF lt less.prems] .
    finally have a: "split_loop t m acc =
        map_option ((@) (acc @ [chunk_of t m])) (split_loop (rest_of t m) m [])" .
    have "split_loop t m [] = split_loop (rest_of t m) m ([] @ [chunk_of t m])"
      using True by (subst split_loop.simps) simp
    also have "\<dots> = map_option ((@) ([] @ [chunk_of t m])) (split_loop (rest_of t m) m [])"
      using less.hyps[OF lt less.prems] .
    finally have b: "split_loop t m [] =
        map_option ((@) [chunk_of t m]) (split_loop (rest_of t m) m [])" by simp
    show ?thesis unfolding a b by (cases "split_loop (rest_of t m) m []") simp_all
  next
    case False
    then show ?thesis by (subst (1 2) split_loop.simps) simp
  qed
qed

lemma split_loop_short:
  "\<not> int (length t) > m \<Longrightarrow> split_loop t m [] = Some (if t \<noteq> [] then [t] else [])"
  by (subst split_loop.simps) simp

lemma split_loop_long:
  assumes "1 \<le> m" "int (length t) > m"
  shows "split_loop t m [] = map_option ((#) (chunk_of t m)) (split_loop (rest_of t m) m [])"
proof -
  have "split_loop t m [] = split_loop (rest_of t m) m [chunk_of t m]"
    using assms(2) by (subst split_loop.simps) simp
  also have "\<dots> = map_option ((@) [chunk_of t m]) (split_loop (rest_of t m) m [])"
    using split_loop_acc[OF assms(1)] .
  also have "(@) [chunk_of t m] = (#) (chunk_of t m)" by (rule ext) simp
  finally show ?thesis .
qed

lemma split_loop_returns: "1 \<le> m \<Longrightarrow> \<exists>r. split_loop t m [] = Some r"
proof (induction "length t" arbitrary: t rule: less_induct)
  case less
  show ?case
  proof (cases "int (length t) > m")
    case True
    from less.hyps[OF length_rest_of[OF less.prems True] less.prems]
    show ?thesis by (auto simp: split_loop_long[OF less.prems True])
  next
    case False
    then show ?thesis by (simp add: split_loop_short)
  qed
qed

lemma subseq_py_strip: "subseq (py_strip s) s"
proof -
  have "suffix (py_lstrip s) s"
    unfolding py_lstrip_def by (rule suffix_dropWhile)
  moreover have "prefix (py_strip s) (py_lstrip s)"
    unfolding py_strip_def py_rstrip_def
    by (metis suffix_dropWhile suffix_to_prefix rev_rev_ident)
  ultimately show ?thesis
    by (meson prefix_imp_subseq suffix_imp_subseq subseq_order.order_trans)
qed

lemma filter_dropWhile_not: "filter (\<lambda>c. \<not> P c) (dropWhile P s) = filter (\<lambda>c. \<not> P c) s"
  by (induction s) auto

lemma filter_py_strip: "filter (\<lambda>c. \<not> py_isspace c) (py_strip s) = filter (\<lambda>c. \<not> py_isspace c) s"
  unfolding py_strip_def py_rstrip_def py_lstrip_def
  by (simp add: filter_dropWhile_not flip: rev_filter)

lemma py_slice_split: "py_slice_to s k @ py_slice_from s k = s"
  by (simp add: py_slice_to_def py_slice_from_def)

lemma chunk_rest_subseq:
  "subseq r' (rest_of t m) \<Longrightarrow> subseq (chunk_of t m @ r') t"
proof -
  assume a: "subseq r' (rest_of t m)"
  let ?k = "find_split_pos t m + 1"
  have "subseq (chunk_of t m) (py_slice_to t ?k)"
    unfolding chunk_of_def by (rule subseq_py_strip)
  moreover have "subseq r' (py_slice_from t ?k)"
    using a subseq_py_strip[of "py_slice_from t ?k"]
    unfolding rest_of_def by (meson subseq_order.order_trans)
  ultimately have "subseq (chunk_of t m @ r') (py_slice_to t ?k @ py_slice_from t ?k)"
    by (rule list_emb_append_mono)
  then show ?thesis by (simp add: py_slice_split)
qed

lemma chunk_rest_filter:
  "filter (\<lambda>c. \<not> py_isspace c) (chunk_of t m) @ filter (\<lambda>c. \<not> py_isspace c) (rest_of t m)
     = filter (\<lambda>c. \<not> py_isspace c) t"
proof -
  let ?k = "find_split_pos t m + 1"
  have "filter (\<lambda>c. \<not> py_isspace c) t =
      filter (\<lambda>c. \<not> py_isspace c) (py_slice_to t ?k @ py_slice_from t ?k)"
    by (simp only: py_slice_split)
  then show ?thesis
    by (simp add: chunk_of_def rest_of_def filter_py_strip)
qed

lemma split_loop_concat:
  "1 \<le> m \<Longrightarrow> \<exists>r. split_loop t m [] = Some r \<and> subseq (concat r) t \<and>
     filter (\<lambda>c. \<not> py_isspace c) (concat r) = filter (\<lambda>c. \<not> py_isspace c) t"
proof (induction "length t" arbitrary: t rule: less_induct)
  case less
  show ?case
  proof (cases "int (length t) > m")
    case True
    from less.hyps[OF length_rest_of[OF less.prems True] less.prems]
    obtain r' where r': "split_loop (rest_of t m) m [] = Some r'"
      "subseq (concat r') (rest_of t m)"
      "filter (\<lambda>c. \<not> py_isspace c) (concat r') = filter (\<lambda>c. \<not> py_isspace c) (rest_of t m)"
      by blast
    have "split_loop t m [] = Some (chunk_of t m # r')"
      by (simp add: split_loop_long[OF less.prems True] r'(1))
    moreover have "subseq (concat (chunk_of t m # r')) t"
      using chunk_rest_subseq[OF r'(2)] by simp
    moreover have "filter (\<lambda>c. \<not> py_isspace c) (concat (chunk_of t m # r'))
        = filter (\<lambda>c. \<not> py_isspace c) t"
      using chunk_rest_filter[of t m] r'(3) by simp
    ultimately show ?thesis by blast
  next
    case False
    then show ?thesis by (simp add: split_loop_short)
  qed
qed

lemma split_loop_lengths:
  "1 \<le> m \<Longrightarrow> \<exists>r. split_loop t m [] = Some r \<and> (\<forall>c \<in> set r. int (length c) \<le> m)"
proof (induction "length t" arbitrary: t rule: less_induct)
  case less
  show ?case
  proof (cases "int (length t) > m")
    case True
    from less.hyps[OF length_rest_of[OF less.prems True] less.prems]
    obtain r' where r': "split_loop (rest_of t m) m [] = Some r'" "\<forall>c \<in> set r'. int (length c) \<le> m"
      by blast
    have "split_loop t m [] = Some (chunk_of t m # r')"
      by (simp add: split_loop_long[OF less.prems True] r'(1))
    with r'(2) length_chunk_of[OF less.prems, of t] show ?thesis by simp
  next
    case False
    then show ?thesis by (simp add: split_loop_short)
  qed
qed

lemma split_loop_nonempty:
  assumes "1 \<le> m" "int (length t) > m"
  shows "\<exists>r. split_loop t m [] = Some (chunk_of t m # r)"
  using split_loop_returns[OF assms(1), of "rest_of t m"]
  by (auto simp: split_loop_long[OF assms])

subsection \<open>The scan over the punctuation marks\<close>

lemma scan_step_max: "scan_step t m a p = max a (py_rfind (py_slice_to t m) p)"
  by (auto simp: scan_step_def Let_def)

lemma foldl_scan_Max:
  "foldl (scan_step t m) a ps = Max (insert a ((\<lambda>p. py_rfind (py_slice_to t m) p) ` set ps))"
proof (induction ps arbitrary: a)
  case Nil
  then show ?case by simp
next
  case (Cons p ps)
  let ?r = "\<lambda>p. py_rfind (py_slice_to t m) p"
  have "foldl (scan_step t m) a (p # ps) = foldl (scan_step t m) (max a (?r p)) ps"
    by (simp only: foldl_Cons scan_step_max)
  also have "\<dots> = Max (insert (max a (?r p)) (?r ` set ps))"
    by (rule Cons.IH)
  also have "\<dots> = Max (insert a (insert (?r p) (?r ` set ps)))"
  proof (cases "set ps = {}")
    case True
    then show ?thesis by (simp add: max.commute)
  next
    case False
    then show ?thesis by (simp add: max.assoc)
  qed
  finally show ?case by simp
qed

lemma scan_punctuations_none:
  assumes "\<forall>p \<in> set punctuations. p \<notin> set (py_slice_to t m)"
  shows "scan_punctuations t m = - 1"
proof -
  have "py_rfind (py_slice_to t m) p = - 1" if "p \<in> set punctuations" for p
    using assms that py_rfind_neg_iff[of "py_slice_to t m" p] py_rfind_lower[of "py_slice_to t m" p]
    by auto
  then have "(\<lambda>p. py_rfind (py_slice_to t m) p) ` set punctuations \<subseteq> {- 1}" by auto
  then have "insert (- 1) ((\<lambda>p. py_rfind (py_slice_to t m) p) ` set punctuations) = {- 1}" by auto
  then have "Max (insert (- 1) ((\<lambda>p. py_rfind (py_slice_to t m) p) ` set punctuations)) = - 1"
    by (simp only: Max_singleton)
  then show ?thesis by (simp only: scan_punctuations_def foldl_scan_Max)
qed

lemma scan_punctuations_Max:
  fixes t :: pystr and m :: int
  defines "C \<equiv> {i. i < length (py_slice_to t m) \<and> py_slice_to t m ! i \<in> set punctuations}"
  assumes ne: "C \<noteq> {}"
  shows "scan_punctuations t m = int (Max C)"
proof -
  let ?w = "py_slice_to t m"
  let ?S = "insert (- 1) ((\<lambda>p. py_rfind ?w p) ` set punctuations)"
  have fin: "finite C" unfolding C_def by simp
  from Max_in[OF fin ne] have i0: "Max C < length ?w" "?w ! Max C \<in> set punctuations"
    unfolding C_def by auto
  have le: "x \<le> int (Max C)" if "x \<in> ?S" for x
  proof (cases "x = - 1")
    case True
    then show ?thesis by simp
  next
    case False
    with that obtain p where p: "p \<in> set punctuations" "x = py_rfind ?w p" by auto
    show ?thesis
    proof (cases "0 \<le> x")
      case True
      have "nat x < length ?w" using py_rfind_upper[of ?w p] True p(2) by simp
      moreover have "?w ! nat x = p" using py_rfind_nth[of ?w p] True p(2) by simp
      ultimately have "nat x \<in> C" using p(1) unfolding C_def by simp
      then have "nat x \<le> Max C" using fin by simp
      then show ?thesis using True by simp
    next
      case False
      then show ?thesis by simp
    qed
  qed
  have "int (Max C) \<le> py_rfind ?w (?w ! Max C)"
    using py_rfind_greatest[OF i0(1) refl] .
  moreover have "py_rfind ?w (?w ! Max C) \<in> ?S" using i0(2) by blast
  ultimately have "int (Max C) \<in> ?S" using le[of "py_rfind ?w (?w ! Max C)"] by simp
  then have "Max ?S = int (Max C)"
    using le by (intro Max_eqI) auto
  then show ?thesis by (simp add: scan_punctuations_def foldl_scan_Max)
qed

lemma window_index_set:
  assumes "0 \<le> m"
  shows "{i. i < length (py_slice_to t m) \<and> py_slice_to t m ! i \<in> set punctuations}
       = {i. i < length t \<and> int i < m \<and> t ! i \<in> set punctuations}"
  using assms by (auto simp: py_slice_to_def)

subsection \<open>Chunks and gaps\<close>

lemma all_space_append: "all_space (a @ b) \<longleftrightarrow> all_space a \<and> all_space b"
  by (auto simp: all_space_def)

lemma all_space_Nil: "all_space []"
  by (simp add: all_space_def)

lemma py_strip_decompose:
  "\<exists>a b. s = a @ py_strip s @ b \<and> all_space a \<and> all_space b"
proof -
  let ?u = "dropWhile py_isspace s"
  have 1: "s = takeWhile py_isspace s @ ?u" by simp
  have "rev ?u = takeWhile py_isspace (rev ?u) @ dropWhile py_isspace (rev ?u)" by simp
  then have "rev (rev ?u) = rev (takeWhile py_isspace (rev ?u) @ dropWhile py_isspace (rev ?u))"
    by (simp only:)
  then have 2: "?u = rev (dropWhile py_isspace (rev ?u)) @ rev (takeWhile py_isspace (rev ?u))"
    by (simp only: rev_rev_ident rev_append)
  have 3: "py_strip s = rev (dropWhile py_isspace (rev ?u))"
    by (simp add: py_strip_def py_rstrip_def py_lstrip_def)
  have "s = takeWhile py_isspace s @ py_strip s @ rev (takeWhile py_isspace (rev ?u))"
    using 1 2 3 by metis
  moreover have "all_space (takeWhile py_isspace s)"
    by (auto simp: all_space_def dest: set_takeWhileD)
  moreover have "all_space (rev (takeWhile py_isspace (rev ?u)))"
    by (auto simp: all_space_def dest: set_takeWhileD)
  ultimately show ?thesis by blast
qed

lemma interleave_gaps_extend:
  assumes "length gs = length r + 1" "\<forall>g \<in> set gs. all_space g" "all_space a" "all_space b"
  shows "\<exists>G. length G = length gs \<and> (\<forall>g \<in> set G. all_space g) \<and>
     interleave_gaps G r = a @ interleave_gaps gs r @ b"
  using assms
proof (induction r arbitrary: gs a)
  case Nil
  then obtain g where gs: "gs = [g]" by (cases gs) auto
  with Nil have "all_space (a @ g @ b)" by (simp add: all_space_append)
  then have "length [a @ g @ b] = length gs \<and> (\<forall>x \<in> set [a @ g @ b]. all_space x) \<and>
     interleave_gaps [a @ g @ b] [] = a @ interleave_gaps gs [] @ b"
    using gs by simp
  then show ?case by blast
next
  case (Cons c cs)
  then obtain g gs' where gs: "gs = g # gs'" by (cases gs) auto
  with Cons.prems have l: "length gs' = length cs + 1" and w: "\<forall>x \<in> set gs'. all_space x"
    and g: "all_space g" by auto
  from Cons.IH[OF l w all_space_Nil Cons.prems(4)] obtain G'
    where G': "length G' = length gs'" "\<forall>x \<in> set G'. all_space x"
      "interleave_gaps G' cs = interleave_gaps gs' cs @ b" by auto
  have "length ((a @ g) # G') = length gs \<and> (\<forall>x \<in> set ((a @ g) # G'). all_space x) \<and>
     interleave_gaps ((a @ g) # G') (c # cs) = a @ interleave_gaps gs (c # cs) @ b"
    using G' gs g Cons.prems(3) by (simp add: all_space_append)
  then show ?case by blast
qed

lemma split_loop_gaps:
  "1 \<le> m \<Longrightarrow> \<exists>r gaps. split_loop t m [] = Some r \<and> length gaps = length r + 1 \<and>
     (\<forall>g \<in> set gaps. all_space g) \<and> interleave_gaps gaps r = t"
proof (induction "length t" arbitrary: t rule: less_induct)
  case less
  show ?case
  proof (cases "int (length t) > m")
    case True
    let ?k = "find_split_pos t m + 1"
    from less.hyps[OF length_rest_of[OF less.prems True] less.prems]
    obtain r' gaps' where r': "split_loop (rest_of t m) m [] = Some r'"
      "length gaps' = length r' + 1" "\<forall>g \<in> set gaps'. all_space g"
      "interleave_gaps gaps' r' = rest_of t m"
      by blast
    from py_strip_decompose[of "py_slice_to t ?k"] obtain a1 b1
      where 1: "py_slice_to t ?k = a1 @ chunk_of t m @ b1" "all_space a1" "all_space b1"
      unfolding chunk_of_def by blast
    from py_strip_decompose[of "py_slice_from t ?k"] obtain a2 b2
      where 2: "py_slice_from t ?k = a2 @ rest_of t m @ b2" "all_space a2" "all_space b2"
      unfolding rest_of_def by blast
    have ab: "all_space (b1 @ a2)" using 1(3) 2(2) by (simp add: all_space_append)
    from interleave_gaps_extend[OF r'(2) r'(3) ab 2(3)] obtain G
      where G: "length G = length gaps'" "\<forall>g \<in> set G. all_space g"
        "interleave_gaps G r' = (b1 @ a2) @ interleave_gaps gaps' r' @ b2" by blast
    have "t = py_slice_to t ?k @ py_slice_from t ?k" by (simp only: py_slice_split)
    also have "\<dots> = a1 @ chunk_of t m @ interleave_gaps G r'"
      using 1(1) 2(1) G(3) r'(4) by simp
    finally have t: "interleave_gaps (a1 # G) (chunk_of t m # r') = t" by simp
    have "split_loop t m [] = Some (chunk_of t m # r')"
      by (simp add: split_loop_long[OF less.prems True] r'(1))
    moreover have "length (a1 # G) = length (chunk_of t m # r') + 1"
      using G(1) r'(2) by simp
    moreover have "\<forall>g \<in> set (a1 # G). all_space g" using G(2) 1(2) by simp
    ultimately show ?thesis using t by blast
  next
    case False
    show ?thesis
    proof (cases "t = []")
      case True
      have "split_loop t m [] = Some [] \<and> length [[]::pystr] = length ([]::pystr list) + 1 \<and>
        (\<forall>g \<in> set [[]]. all_space g) \<and> interleave_gaps [[]] [] = t"
        using True False by (simp add: split_loop_short all_space_Nil)
      then show ?thesis by blast
    next
      case ne: False
      have "split_loop t m [] = Some [t] \<and> length [[], []::pystr] = length [t] + 1 \<and>
        (\<forall>g \<in> set [[], []]. all_space g) \<and> interleave_gaps [[], []] [t] = t"
        using ne False by (simp add: split_loop_short all_space_Nil)
      then show ?thesis by blast
    qed
  qed
qed

section \<open>Properties of split_text\<close>

lemmas split_eval = split_text_def chunk_of_def rest_of_def find_split_pos_def
  scan_punctuations_def scan_step_def punctuations_def py_slice_to_def py_slice_from_def
  py_strip_def py_lstrip_def py_rstrip_def py_isspace_def Let_def

text \<open>The text \<open>abc,def gh\<close> cut at five characters: \<open>abc,\<close>, \<open>def\<close>, \<open>gh\<close>.\<close>

lemma split_text_example:
  "split_text [97, 98, 99, 44, 100, 101, 102, 32, 103, 104] 5 =
     Some [[97, 98, 99, 44], [100, 101, 102], [103, 104]]"
  by (simp add: split_loop_long split_loop_short split_eval)

subsection \<open>Short texts\<close>

text \<open>
  Claim C7: a text \<open>t\<close> with \<open>len(t) \<le> max_len\<close> is returned as the one-element
  list \<open>[t]\<close>, unchanged.
\<close>

theorem split_text_short: "int (length t) \<le> m \<Longrightarrow> split_text t m = Some [t]"
  by (simp add: split_text_def)

theorem split_text_short_witness:
  "int (length [104, 105 :: nat]) \<le> 25 \<and> split_text [104, 105] 25 = Some [[104, 105]]"
  using split_text_short[of "[104, 105]" 25] by simp

subsection \<open>Chunk lengths\<close>

text \<open>
  Claim C2: for \<open>max_len \<ge> 1\<close> and a text longer than \<open>max_len\<close>, \<open>split_text\<close>
  returns, and every chunk it returns has at most \<open>max_len\<close> characters.
\<close>

theorem split_text_chunk_lengths:
  assumes "1 \<le> m" "int (length t) > m"
  shows "\<exists>r. split_text t m = Some r \<and> (\<forall>c \<in> set r. int (length c) \<le> m)"
  using split_loop_lengths[OF assms(1), of t] assms(2) by (simp add: split_text_def)

theorem split_text_chunk_lengths_witness:
  "(1::int) \<le> 5 \<and> int (length [97, 98, 99, 44, 100, 101, 102, 32, 103, 104 :: nat]) > 5 \<and>
   (\<exists>r. split_text [97, 98, 99, 44, 100, 101, 102, 32, 103, 104] 5 = Some r \<and>
        (\<forall>c \<in> set r. int (length c) \<le> 5))"
  using split_text_chunk_lengths[of 5 "[97, 98, 99, 44, 100, 101, 102, 32, 103, 104]"] by simp

subsection \<open>Reconstruction\<close>

text \<open>
  Claim C3: for \<open>max_len \<ge> 1\<close> the chunks of \<open>t\<close>, concatenated in order, are \<open>t\<close>
  with some characters deleted (a subsequence of \<open>t\<close>), and the characters of \<open>t\<close> that
  are not white space are all kept, in their order. What is deleted is the white space at
  the chunk boundaries: \<open>t\<close> is the chunks in order with a string of white space before
  each chunk and after the last.
\<close>

theorem split_text_concat:
  assumes "1 \<le> m"
  shows "\<exists>r gaps. split_text t m = Some r \<and> subseq (concat r) t \<and>
     filter (\<lambda>c. \<not> py_isspace c) (concat r) = filter (\<lambda>c. \<not> py_isspace c) t \<and>
     length gaps = length r + 1 \<and> (\<forall>g \<in> set gaps. all_space g) \<and>
     interleave_gaps gaps r = t"
proof (cases "int (length t) \<le> m")
  case True
  have "split_text t m = Some [t] \<and> subseq (concat [t]) t \<and>
     filter (\<lambda>c. \<not> py_isspace c) (concat [t]) = filter (\<lambda>c. \<not> py_isspace c) t \<and>
     length [[], []::pystr] = length [t] + 1 \<and> (\<forall>g \<in> set [[], []]. all_space g) \<and>
     interleave_gaps [[], []] [t] = t"
    using True by (simp add: split_text_def all_space_Nil)
  then show ?thesis by blast
next
  case False
  from split_loop_concat[OF assms, of t] obtain r where r: "split_loop t m [] = Some r"
    "subseq (concat r) t"
    "filter (\<lambda>c. \<not> py_isspace c) (concat r) = filter (\<lambda>c. \<not> py_isspace c) t"
    by blast
  from split_loop_gaps[OF assms, of t] r(1) obtain gaps where
    "length gaps = length r + 1" "\<forall>g \<in> set gaps. all_space g" "interleave_gaps gaps r = t"
    by auto
  moreover have "split_text t m = Some r" using False r(1) by (simp add: split_text_def)
  ultimately show ?thesis using r(2,3) by blast
qed

theorem split_text_concat_witness:
  "(1::int) \<le> 5 \<and>
   (\<exists>r gaps. split_text [97, 98, 99, 44, 100, 101, 102, 32, 103, 104] 5 = Some r \<and>
      subseq (concat r) [97, 98, 99, 44, 100, 101, 102, 32, 103, 104] \<and>
      filter (\<lambda>c. \<not> py_isspace c) (concat r) =
        filter (\<lambda>c. \<not> py_isspace c) [97, 98, 99, 44, 100, 101, 102, 32, 103, 104] \<and>
      length gaps = length r + 1 \<and> (\<forall>g \<in> set gaps. all_space g) \<and>
      interleave_gaps gaps r = [97, 98, 99, 44, 100, 101, 102, 32, 103, 104])"
  using split_text_concat[of 5 "[97, 98, 99, 44, 100, 101, 102, 32, 103, 104]"] by simp

subsection \<open>At least one part\<close>

text \<open>
  Claim C9: for \<open>max_len \<ge> 1\<close> and a text longer than \<open>max_len\<close> (in particular a
  trimmed, non-empty one) \<open>split_text\<close> returns a list with at least one element, so
  \<open>time_per_part\<close> takes the branch that divides the duration by the number of parts,
  never the guarded branch for no parts.
\<close>

theorem split_text_parts_nonempty:
  assumes "1 \<le> m" "int (length t) > m"
  shows "\<exists>parts. split_text t m = Some parts \<and> 0 < length parts \<and>
    time_per_part duration (length parts) =
      float_truediv duration (float_of_int (int (length parts)))"
proof -
  from split_loop_nonempty[OF assms] obtain r
    where "split_loop t m [] = Some (chunk_of t m # r)" by blast
  then have "split_text t m = Some (chunk_of t m # r)"
    using assms(2) by (simp add: split_text_def)
  moreover have "0 < length (chunk_of t m # r)" by simp
  moreover have "time_per_part duration (length (chunk_of t m # r)) =
      float_truediv duration (float_of_int (int (length (chunk_of t m # r))))"
    by (simp add: time_per_part_def)
  ultimately show ?thesis by blast
qed

theorem split_text_parts_nonempty_witness:
  "(1::int) \<le> 5 \<and> int (length [97, 98, 99, 44, 100, 101, 102, 32, 103, 104 :: nat]) > 5 \<and>
   (\<exists>parts. split_text [97, 98, 99, 44, 100, 101, 102, 32, 103, 104] 5 = Some parts \<and>
        0 < length parts \<and>
        time_per_part (Finite 10) (length parts) =
          float_truediv (Finite 10) (float_of_int (int (length parts))))"
  using split_text_parts_nonempty[of 5 "[97, 98, 99, 44, 100, 101, 102, 32, 103, 104]" "Finite 10"]
  by simp

subsection \<open>Termination\<close>

text \<open>
  Claim C10: for every text and every \<open>max_len \<ge> 1\<close> \<open>split_text\<close> returns. In an
  iteration of the loop (the text is longer than \<open>max_len\<close>) the split position is at
  least 0, so the slice after it has lost at least one character, and the remaining text
  after trimming is strictly shorter than before.
\<close>

theorem split_text_terminates:
  assumes "1 \<le> m"
  shows "(\<exists>r. split_text t m = Some r) \<and>
    (int (length t) > m \<longrightarrow> 0 \<le> find_split_pos t m \<and>
        length (py_slice_from t (find_split_pos t m + 1)) < length t \<and>
        length (rest_of t m) < length t)"
proof -
  have "\<exists>r. split_text t m = Some r"
    using split_loop_returns[OF assms, of t] by (simp add: split_text_def)
  moreover have "0 \<le> find_split_pos t m"
    using find_split_pos_bounds(1)[OF assms] .
  moreover have "length (py_slice_from t (find_split_pos t m + 1)) < length t"
    if "int (length t) > m"
    using find_split_pos_bounds[OF assms, of t] that assms by (auto simp: py_slice_from_def)
  moreover have "length (rest_of t m) < length t" if "int (length t) > m"
    using length_rest_of[OF assms that] .
  ultimately show ?thesis by blast
qed

theorem split_text_terminates_witness:
  "(1::int) \<le> 5 \<and> (\<exists>r. split_text [97, 98, 99, 44, 100, 101, 102, 32, 103, 104] 5 = Some r) \<and>
   int (length [97, 98, 99, 44, 100, 101, 102, 32, 103, 104 :: nat]) > 5 \<and>
   0 \<le> find_split_pos [97, 98, 99, 44, 100, 101, 102, 32, 103, 104] 5 \<and>
   length (rest_of [97, 98, 99, 44, 100, 101, 102, 32, 103, 104] 5) <
     length [97, 98, 99, 44, 100, 101, 102, 32, 103, 104 :: nat]"
  using split_text_terminates[of 5 "[97, 98, 99, 44, 100, 101, 102, 32, 103, 104]"] by simp

subsection \<open>The split position\<close>

text \<open>
  Claim C4: in an iteration of the loop the split position is the largest index, within
  the first \<open>max_len\<close> characters, at which a character of \<open>punctuations\<close> stands,
  whichever mark it is; when there is no such index, or when the largest one is 0, the
  split position is \<open>max_len - 1\<close>.
\<close>

theorem find_split_pos_rightmost:
  assumes "0 \<le> m"
  shows "find_split_pos t m =
    (let C = {i. i < length t \<and> int i < m \<and> t ! i \<in> set punctuations}
     in if C = {} \<or> Max C = 0 then m - 1 else int (Max C))"
proof -
  let ?C = "{i. i < length t \<and> int i < m \<and> t ! i \<in> set punctuations}"
  let ?W = "{i. i < length (py_slice_to t m) \<and> py_slice_to t m ! i \<in> set punctuations}"
  have W: "?W = ?C" using window_index_set[OF assms] .
  show ?thesis
  proof (cases "?C = {}")
    case True
    have empty: "?W = {}" using W True by (simp only:)
    have "\<forall>p \<in> set punctuations. p \<notin> set (py_slice_to t m)"
    proof (intro ballI notI)
      fix p assume p: "p \<in> set punctuations" "p \<in> set (py_slice_to t m)"
      then obtain i where "i < length (py_slice_to t m)" "py_slice_to t m ! i = p"
        by (auto simp: in_set_conv_nth)
      with p(1) have "i \<in> ?W" by blast
      with empty show False by blast
    qed
    from scan_punctuations_none[OF this] True show ?thesis
      by (simp add: find_split_pos_def)
  next
    case False
    then have "?W \<noteq> {}" using W by simp
    from scan_punctuations_Max[OF this] have "scan_punctuations t m = int (Max ?C)"
      using W by simp
    with False show ?thesis by (auto simp: find_split_pos_def Let_def)
  qed
qed

text \<open>
  In \<open>a,b cde\<close> with a window of five characters the comma stands at 1 and the space
  at 3: the position is 3, although the comma is tried first.
\<close>

lemma punctuation_indices_example:
  "{i. i < length [97, 44, 98, 32, 99, 100, 101 :: nat] \<and> int i < 5 \<and>
       [97, 44, 98, 32, 99, 100, 101 :: nat] ! i \<in> set punctuations} = {1, 3}"
proof -
  have "i < 5 \<Longrightarrow> i \<in> {0, 1, 2, 3, 4}" for i :: nat by auto
  then show ?thesis
    by (auto simp: punctuations_def nth_Cons')
qed

theorem find_split_pos_rightmost_witness:
  "(0::int) \<le> 5 \<and> find_split_pos [97, 44, 98, 32, 99, 100, 101] 5 = 3"
  using find_split_pos_rightmost[of 5 "[97, 44, 98, 32, 99, 100, 101]"]
  by (simp only: punctuation_indices_example Let_def) simp

section \<open>Properties of the float operations\<close>

lemma rhe_of_int: "round_half_even (of_int n) = n"
  by (simp add: round_half_even_def)

lemma rhe_cases:
  "round_half_even x = \<lfloor>x\<rfloor> \<or> round_half_even x = \<lfloor>x\<rfloor> + 1"
  by (auto simp: round_half_even_def Let_def)

lemma rhe_same_floor:
  assumes "x \<le> y" "\<lfloor>x\<rfloor> = \<lfloor>y\<rfloor>"
  shows "round_half_even x \<le> round_half_even y"
  using assms by (auto simp: round_half_even_def Let_def)

lemma rhe_ge_floor: "\<lfloor>x\<rfloor> \<le> round_half_even x"
  using rhe_cases[of x] by auto

lemma rhe_le_floor1: "round_half_even x \<le> \<lfloor>x\<rfloor> + 1"
  using rhe_cases[of x] by auto

lemma rhe_mono: "x \<le> y \<Longrightarrow> round_half_even x \<le> round_half_even y"
proof -
  assume xy: "x \<le> y"
  then have "\<lfloor>x\<rfloor> \<le> \<lfloor>y\<rfloor>" by (rule floor_mono)
  then consider "\<lfloor>x\<rfloor> = \<lfloor>y\<rfloor>" | "\<lfloor>x\<rfloor> + 1 \<le> \<lfloor>y\<rfloor>" by linarith
  then show ?thesis
  proof cases
    case 1
    then show ?thesis using xy by (rule rhe_same_floor[rotated])
  next
    case 2
    then show ?thesis using rhe_le_floor1[of x] rhe_ge_floor[of y] by linarith
  qed
qed

lemma rhe_minus: "round_half_even (- x) = - round_half_even x"
proof (cases "x \<in> \<int>")
  case True
  then obtain n where "x = of_int n" by (auto elim: Ints_cases)
  then have "- x = of_int (- n)" by simp
  then show ?thesis unfolding \<open>x = of_int n\<close> by (simp only: rhe_of_int)
next
  case False
  have ne: "x \<noteq> of_int \<lfloor>x\<rfloor>" using False by (metis Ints_of_int)
  then have fl: "\<lfloor>- x\<rfloor> = - \<lfloor>x\<rfloor> - 1"
    by (simp add: floor_minus ceiling_altdef)
  show ?thesis
    unfolding round_half_even_def Let_def fl
    by (auto simp: algebra_simps)
qed

lemma bit_length_bounds: "0 < n \<Longrightarrow> 2 ^ (bit_length n - 1) \<le> n \<and> n < 2 ^ bit_length n"
proof (induction n rule: bit_length.induct)
  case (1 n)
  show ?case
  proof (cases "n div 2 = 0")
    case True
    with 1(2) have "n = 1" by auto
    then show ?thesis by (simp add: bit_length.simps[of "Suc 0"] bit_length.simps[of 0])
  next
    case False
    with 1 have ih: "2 ^ (bit_length (n div 2) - 1) \<le> n div 2" "n div 2 < 2 ^ bit_length (n div 2)"
      by auto
    have bl: "bit_length n = Suc (bit_length (n div 2))"
      using 1(2) by (simp add: bit_length.simps[of n])
    have pos: "0 < bit_length (n div 2)" using False by (simp add: bit_length.simps[of "n div 2"])
    have "(2::nat) ^ (bit_length n - 1) = 2 * 2 ^ (bit_length (n div 2) - 1)"
      using pos bl by (cases "bit_length (n div 2)") auto
    moreover have "(2::nat) ^ bit_length n = 2 * 2 ^ bit_length (n div 2)"
      unfolding bl by simp
    moreover have "2 * (n div 2) \<le> n" "n < 2 * (n div 2) + 2" by presburger+
    ultimately show ?thesis using ih by linarith
  qed
qed

lemma bit_length_pos: "0 < n \<Longrightarrow> 0 < bit_length n"
  by (simp add: bit_length.simps[of n])

lemma binade_bounds:
  assumes "0 < x"
  shows "2 powi (binade x) \<le> x" "x < 2 powi (binade x + 1)"
proof -
  show "2 powi (binade x) \<le> x"
  proof (cases "1 \<le> x")
    case True
    let ?n = "nat \<lfloor>x\<rfloor>"
    have n: "0 < ?n" using True by simp
    from bit_length_bounds[OF n] have "2 ^ (bit_length ?n - 1) \<le> ?n" by blast
    then have "(2::rat) ^ (bit_length ?n - 1) \<le> of_nat ?n"
      by (metis of_nat_le_iff of_nat_numeral of_nat_power)
    also have "\<dots> \<le> x" using True by simp
    finally have "(2::rat) ^ (bit_length ?n - 1) \<le> x" .
    moreover have "binade x = int (bit_length ?n - 1)"
      using True bit_length_pos[OF n] by (simp add: binade_def)
    ultimately show ?thesis by simp
  next
    case False
    let ?c = "\<lceil>1 / x\<rceil>"
    let ?n = "nat (?c - 1)"
    have "1 < 1 / x" using False assms by simp
    then have c: "2 \<le> ?c" by linarith
    then have n: "0 < ?n" by simp
    from bit_length_bounds[OF n] have "?n < 2 ^ bit_length ?n" by blast
    then have "?c \<le> 2 ^ bit_length ?n" using c by (simp add: nat_less_iff)
    then have "of_int ?c \<le> (2::rat) ^ bit_length ?n"
      by (metis of_int_le_iff of_int_numeral of_int_power)
    moreover have "1 / x \<le> of_int ?c" by simp
    ultimately have "1 / x \<le> (2::rat) ^ bit_length ?n" by linarith
    then have "1 / 2 ^ bit_length ?n \<le> x"
      using assms by (simp add: field_simps)
    moreover have "binade x = - int (bit_length ?n)" using False by (simp add: binade_def)
    ultimately show ?thesis by (simp add: power_int_minus_divide)
  qed
  show "x < 2 powi (binade x + 1)"
  proof (cases "1 \<le> x")
    case True
    let ?n = "nat \<lfloor>x\<rfloor>"
    have n: "0 < ?n" using True by simp
    from bit_length_bounds[OF n] have "?n < 2 ^ bit_length ?n" by blast
    then have "?n + 1 \<le> 2 ^ bit_length ?n" by linarith
    then have "of_nat (?n + 1) \<le> (2::rat) ^ bit_length ?n"
      by (metis of_nat_le_iff of_nat_numeral of_nat_power)
    moreover have "x < of_nat (?n + 1)" using True by simp linarith
    ultimately have "x < (2::rat) ^ bit_length ?n" by linarith
    moreover have "binade x + 1 = int (bit_length ?n)"
      using True by (simp add: binade_def)
    ultimately show ?thesis by simp
  next
    case False
    let ?c = "\<lceil>1 / x\<rceil>"
    let ?n = "nat (?c - 1)"
    have "1 < 1 / x" using False assms by simp
    then have c: "2 \<le> ?c" by linarith
    then have n: "0 < ?n" by simp
    from bit_length_bounds[OF n] have "2 ^ (bit_length ?n - 1) \<le> ?n" by blast
    then have "2 ^ (bit_length ?n - 1) \<le> ?c - 1" using c by (simp add: le_nat_iff)
    then have "(2::rat) ^ (bit_length ?n - 1) \<le> of_int (?c - 1)"
      by (metis of_int_le_iff of_int_numeral of_int_power)
    moreover have "of_int (?c - 1) < 1 / x" by linarith
    ultimately have "(2::rat) ^ (bit_length ?n - 1) < 1 / x" by linarith
    then have "x < 1 / 2 ^ (bit_length ?n - 1)"
      using assms by (simp add: field_simps)
    moreover have "binade x + 1 = - int (bit_length ?n - 1)"
      using False bit_length_pos[OF n] by (simp add: binade_def)
    ultimately show ?thesis by (simp add: power_int_minus_divide)
  qed
qed

lemma pow2_pos: "0 < (2::rat) powi k"
  by (simp add: zero_less_power_int)

lemma binade_mono:
  assumes "0 < x" "x \<le> y"
  shows "binade x \<le> binade y"
proof (rule ccontr)
  assume "\<not> binade x \<le> binade y"
  then have "binade y + 1 \<le> binade x" by simp
  then have "(2::rat) powi (binade y + 1) \<le> 2 powi (binade x)"
    by (intro power_int_increasing) auto
  moreover have "2 powi (binade x) \<le> x" using binade_bounds(1)[OF assms(1)] .
  moreover have "y < 2 powi (binade y + 1)" using binade_bounds(2)[of y] assms by simp
  ultimately show False using assms(2) by linarith
qed

lemma grid_round_mono:
  assumes "0 < q" "x \<le> y"
  shows "of_int (round_half_even (x / q)) * q \<le> of_int (round_half_even (y / q)) * q"
proof -
  have "x / q \<le> y / q" using assms by (simp add: divide_right_mono)
  then have "round_half_even (x / q) \<le> round_half_even (y / q)" by (rule rhe_mono)
  then have "(of_int (round_half_even (x / q)) :: rat) \<le> of_int (round_half_even (y / q))"
    by simp
  then show ?thesis using assms(1) by (simp add: mult_right_mono)
qed

lemma grid_round_fix:
  assumes "0 < q"
  shows "of_int (round_half_even (of_int n * q / q)) * q = of_int n * q"
proof -
  have "of_int n * q / q = (of_int n :: rat)" using assms by simp
  then show ?thesis by (simp only: rhe_of_int)
qed

lemma binade_unique:
  assumes "0 < x" "2 powi k \<le> x" "x < 2 powi (k + 1)"
  shows "binade x = k"
proof -
  have "\<not> binade x + 1 \<le> k"
  proof
    assume "binade x + 1 \<le> k"
    then have "(2::rat) powi (binade x + 1) \<le> 2 powi k" by (intro power_int_increasing) auto
    with binade_bounds(2)[OF assms(1)] assms(2) show False by linarith
  qed
  moreover have "\<not> k + 1 \<le> binade x"
  proof
    assume "k + 1 \<le> binade x"
    then have "(2::rat) powi (k + 1) \<le> 2 powi (binade x)" by (intro power_int_increasing) auto
    with binade_bounds(1)[OF assms(1)] assms(3) show False by linarith
  qed
  ultimately show ?thesis by linarith
qed

lemma rhe_eqI:
  assumes "of_int n - 1 / 2 < x" "x < of_int n + 1 / 2"
  shows "round_half_even x = n"
proof -
  have "\<lfloor>x\<rfloor> = n \<or> \<lfloor>x\<rfloor> = n - 1" using assms by linarith
  then show ?thesis
  proof
    assume f: "\<lfloor>x\<rfloor> = n"
    then have "x - of_int \<lfloor>x\<rfloor> < 1 / 2" using assms by simp
    then show ?thesis using f by (simp add: round_half_even_def Let_def)
  next
    assume f: "\<lfloor>x\<rfloor> = n - 1"
    then have "x - of_int \<lfloor>x\<rfloor> > 1 / 2" using assms by simp
    then show ?thesis using f by (simp add: round_half_even_def Let_def)
  qed
qed

lemma quantum_pos: "0 < quantum x"
  by (simp add: quantum_def zero_less_power_int)

lemma quantum_minus: "quantum (- x) = quantum x"
  by (simp add: quantum_def)

lemma rb_minus: "round_binary64 (- x) = - round_binary64 x"
  by (simp add: round_binary64_def quantum_minus rhe_minus)

lemma rb_0: "round_binary64 0 = 0"
  by (simp add: round_binary64_def)

lemma rb_nonneg: "0 \<le> x \<Longrightarrow> 0 \<le> round_binary64 x"
proof (cases "x = 0")
  case True
  then show ?thesis by (simp add: rb_0)
next
  case False
  assume "0 \<le> x"
  from grid_round_mono[OF quantum_pos this, of x]
  have "0 \<le> of_int (round_half_even (x / quantum x)) * quantum x"
    using rhe_of_int[of 0] by simp
  then show ?thesis using False by (simp add: round_binary64_def)
qed

lemma quantum_grid_exp: "quantum x = 2 powi (grid_exp x - 52)"
  by (simp add: quantum_def grid_exp_def)

lemma grid_exp_mono:
  assumes "0 < x" "x \<le> y"
  shows "grid_exp x \<le> grid_exp y"
  using binade_mono[OF assms] assms by (simp add: grid_exp_def max.coboundedI1)

lemma pow2_grid_multiple:
  assumes "grid_exp x - 52 \<le> k"
  shows "\<exists>n. (2::rat) powi k = of_int n * quantum x"
proof -
  have "(2::rat) powi k = 2 powi (grid_exp x - 52 + (k - (grid_exp x - 52)))" by simp
  also have "\<dots> = quantum x * 2 powi (k - (grid_exp x - 52))"
    unfolding quantum_grid_exp by (subst power_int_add) simp_all
  also have "(2::rat) powi (k - (grid_exp x - 52)) = of_int (2 ^ nat (k - (grid_exp x - 52)))"
    using assms by (simp add: power_int_def)
  finally show ?thesis by (metis mult.commute)
qed

lemma rb_le_pow2:
  assumes "0 < x" "x \<le> 2 powi k" "grid_exp x - 52 \<le> k"
  shows "round_binary64 x \<le> 2 powi k"
proof -
  from pow2_grid_multiple[OF assms(3)] obtain n where n: "(2::rat) powi k = of_int n * quantum x"
    by blast
  from grid_round_mono[OF quantum_pos assms(2), of x]
  have "round_binary64 x \<le> of_int (round_half_even (2 powi k / quantum x)) * quantum x"
    using assms(1) by (simp add: round_binary64_def)
  also have "\<dots> = 2 powi k"
    unfolding n using grid_round_fix[OF quantum_pos[of x], of n] by simp
  finally show ?thesis .
qed

lemma rb_ge_pow2:
  assumes "0 < x" "2 powi k \<le> x" "grid_exp x - 52 \<le> k"
  shows "2 powi k \<le> round_binary64 x"
proof -
  from pow2_grid_multiple[OF assms(3)] obtain n where n: "(2::rat) powi k = of_int n * quantum x"
    by blast
  from grid_round_mono[OF quantum_pos assms(2), of x]
  have "of_int (round_half_even (2 powi k / quantum x)) * quantum x \<le> round_binary64 x"
    using assms(1) by (simp add: round_binary64_def)
  moreover have "of_int (round_half_even (2 powi k / quantum x)) * quantum x = 2 powi k"
    unfolding n using grid_round_fix[OF quantum_pos[of x], of n] by simp
  ultimately show ?thesis by simp
qed

lemma abs_lt_pow2_grid:
  assumes "0 < x"
  shows "x < 2 powi (grid_exp x + 1)"
proof -
  have "x < 2 powi (binade x + 1)" using binade_bounds(2)[OF assms] .
  also have "\<dots> \<le> 2 powi (grid_exp x + 1)"
    using assms by (intro power_int_increasing) (auto simp: grid_exp_def)
  finally show ?thesis .
qed

lemma rb_mono_pos:
  assumes "0 < x" "x \<le> y"
  shows "round_binary64 x \<le> round_binary64 y"
proof -
  have y: "0 < y" using assms by simp
  have "grid_exp x \<le> grid_exp y" using grid_exp_mono[OF assms] .
  then consider "grid_exp x = grid_exp y" | "grid_exp x + 1 \<le> grid_exp y" by linarith
  then show ?thesis
  proof cases
    case 1
    then have q: "quantum x = quantum y" by (simp add: quantum_grid_exp)
    from grid_round_mono[OF quantum_pos assms(2), of y] show ?thesis
      using assms(1) y by (simp add: round_binary64_def q)
  next
    case 2
    then have "- 1022 < grid_exp y" by (simp add: grid_exp_def)
    then have gy: "grid_exp y = binade y" using y by (simp add: grid_exp_def max_def split: if_splits)
    have "x \<le> 2 powi (grid_exp x + 1)" using abs_lt_pow2_grid[OF assms(1)] by simp
    then have "round_binary64 x \<le> 2 powi (grid_exp x + 1)"
      using assms(1) by (intro rb_le_pow2) simp_all
    also have "\<dots> \<le> 2 powi (grid_exp y)" using 2 by (intro power_int_increasing) auto
    also have "\<dots> \<le> round_binary64 y"
      using binade_bounds(1)[OF y] y by (intro rb_ge_pow2) (simp_all add: gy)
    finally show ?thesis .
  qed
qed

lemma rb_mono: "x \<le> y \<Longrightarrow> round_binary64 x \<le> round_binary64 y"
proof -
  assume xy: "x \<le> y"
  consider "0 < x" | "x \<le> 0" "0 \<le> y" | "y < 0" by linarith
  then show ?thesis
  proof cases
    case 1
    then show ?thesis using xy by (rule rb_mono_pos)
  next
    case 2
    have "0 \<le> round_binary64 (- x)" using 2(1) by (intro rb_nonneg) simp
    then have "round_binary64 x \<le> 0" by (simp add: rb_minus)
    also have "0 \<le> round_binary64 y" using 2(2) by (rule rb_nonneg)
    finally show ?thesis .
  next
    case 3
    then have "0 < - y" "- y \<le> - x" using xy by simp_all
    from rb_mono_pos[OF this] show ?thesis by (simp add: rb_minus)
  qed
qed

lemma binade_ge:
  assumes "0 < y" "2 powi k \<le> y"
  shows "k \<le> binade y"
proof (rule ccontr)
  assume "\<not> k \<le> binade y"
  then have "binade y + 1 \<le> k" by simp
  then have "(2::rat) powi (binade y + 1) \<le> 2 powi k" by (intro power_int_increasing) auto
  with binade_bounds(2)[OF assms(1)] assms(2) show False by linarith
qed

lemma binade_lt:
  assumes "0 < y" "y < 2 powi k"
  shows "binade y < k"
proof (rule ccontr)
  assume "\<not> binade y < k"
  then have "(2::rat) powi k \<le> 2 powi (binade y)" by (intro power_int_increasing) auto
  with binade_bounds(1)[OF assms(1)] assms(2) show False by linarith
qed

lemma rb_fix:
  assumes "x = of_int n * quantum x"
  shows "round_binary64 x = x"
proof -
  have "x / quantum x = of_int n"
    using assms quantum_pos[of x] by (metis less_irrefl nonzero_mult_div_cancel_right)
  then have "round_half_even (x / quantum x) = n" by (simp only: rhe_of_int)
  then show ?thesis using assms by (simp add: round_binary64_def)
qed

lemma rb_idem_pos:
  assumes "0 < x"
  shows "round_binary64 (round_binary64 x) = round_binary64 x"
proof (cases "round_binary64 x = 0")
  case True
  then show ?thesis by (simp add: rb_0)
next
  case False
  let ?y = "round_binary64 x" and ?e = "grid_exp x"
  have y: "0 < ?y" using False rb_nonneg[of x] assms by simp
  have yq: "?y = of_int (round_half_even (x / quantum x)) * quantum x"
    using assms by (simp add: round_binary64_def)
  have up: "?y \<le> 2 powi (?e + 1)"
    using abs_lt_pow2_grid[OF assms] assms by (intro rb_le_pow2) simp_all
  have e: "- 1022 \<le> ?e" by (simp add: grid_exp_def)
  have lo: "?e \<le> grid_exp ?y"
  proof (cases "?e = binade x")
    case True
    then have "2 powi ?e \<le> x" using binade_bounds(1)[OF assms] by simp
    then have "2 powi ?e \<le> ?y" using assms by (intro rb_ge_pow2) simp_all
    from binade_ge[OF y this] show ?thesis using y by (simp add: grid_exp_def)
  next
    case False
    then have "?e = - 1022" using assms by (simp add: grid_exp_def max_def split: if_splits)
    then show ?thesis by (simp add: grid_exp_def)
  qed
  show ?thesis
  proof (cases "?y < 2 powi (?e + 1)")
    case True
    from binade_lt[OF y True] e have "grid_exp ?y \<le> ?e" using y by (simp add: grid_exp_def)
    with lo have "grid_exp ?y = ?e" by simp
    then have "quantum ?y = quantum x" by (simp add: quantum_grid_exp)
    with yq have "?y = of_int (round_half_even (x / quantum x)) * quantum ?y" by simp
    then show ?thesis by (rule rb_fix)
  next
    case False
    with up have eq: "?y = 2 powi (?e + 1)" by simp
    have "binade ?y = ?e + 1"
      by (rule binade_unique) (simp_all add: eq zero_less_power_int power_int_strict_increasing)
    then have "grid_exp ?y = ?e + 1" using e y by (simp add: grid_exp_def)
    then have "grid_exp ?y - 52 \<le> ?e + 1" by simp
    from pow2_grid_multiple[OF this] obtain n where "(2::rat) powi (?e + 1) = of_int n * quantum ?y"
      by blast
    then have "?y = of_int n * quantum ?y" using eq by simp
    then show ?thesis by (rule rb_fix)
  qed
qed

lemma rb_idem: "round_binary64 (round_binary64 x) = round_binary64 x"
proof -
  consider "x = 0" | "0 < x" | "x < 0" by linarith
  then show ?thesis
  proof cases
    case 1
    then show ?thesis by (simp add: rb_0)
  next
    case 2
    then show ?thesis by (rule rb_idem_pos)
  next
    case 3
    then have "0 < - x" by simp
    from rb_idem_pos[OF this] show ?thesis by (simp add: rb_minus)
  qed
qed

lemma rb_eqI:
  assumes "0 < x" "2 powi k \<le> x" "x < 2 powi (k + 1)" "- 1022 \<le> k"
    and "of_int n - 1 / 2 < x / 2 powi (k - 52)" "x / 2 powi (k - 52) < of_int n + 1 / 2"
  shows "round_binary64 x = of_int n * 2 powi (k - 52)"
proof -
  have "binade x = k" using assms(1-3) by (rule binade_unique)
  then have q: "quantum x = 2 powi (k - 52)" using assms(1,4) by (simp add: quantum_def)
  have "round_half_even (x / 2 powi (k - 52)) = n" using assms(5,6) by (rule rhe_eqI)
  then show ?thesis using assms(1) by (simp add: round_binary64_def q)
qed

lemma rb_exactI:
  assumes "0 < x" "2 powi k \<le> x" "x < 2 powi (k + 1)" "- 1022 \<le> k"
    and "x / 2 powi (k - 52) = of_int n"
  shows "round_binary64 x = x"
proof -
  have "binade x = k" using assms(1-3) by (rule binade_unique)
  then have q: "quantum x = 2 powi (k - 52)" using assms(1,4) by (simp add: quantum_def)
  have "x = of_int n * 2 powi (k - 52)" using assms(5) by (simp add: field_simps)
  then have "x = of_int n * quantum x" unfolding q .
  then show ?thesis by (rule rb_fix)
qed

lemma to_double_FiniteI:
  assumes "round_binary64 x = v" "\<bar>v\<bar> < 2 ^ 1024"
  shows "to_double x = Finite v"
  using assms by (auto simp: to_double_def Let_def)

lemma to_double_0: "to_double 0 = Finite 0"
  by (simp add: to_double_def rb_0)

subsection \<open>Order and the special values\<close>

lemma to_double_cases:
  "to_double x = PosInf \<or> to_double x = NegInf \<or> to_double x = Finite (round_binary64 x)"
  by (simp add: to_double_def Let_def)

lemma to_double_not_NaN: "to_double x \<noteq> NaN"
  using to_double_cases[of x] by auto

lemma to_double_FiniteD:
  assumes "to_double x = Finite v"
  shows "v = round_binary64 x" "\<bar>v\<bar> < 2 ^ 1024"
  using assms by (auto simp: to_double_def Let_def split: if_splits)

lemma to_double_mono:
  assumes "x \<le> y"
  shows "float_le (to_double x) (to_double y)"
  using rb_mono[OF assms] by (auto simp: to_double_def Let_def)

lemma float_le_not_NaN: "float_le a b \<Longrightarrow> a \<noteq> NaN \<and> b \<noteq> NaN"
  by (cases a; cases b) auto

lemma float_le_PosInf: "c \<noteq> NaN \<Longrightarrow> float_le c PosInf"
  by (cases c) auto

lemma float_le_NegInf: "c \<noteq> NaN \<Longrightarrow> float_le NegInf c"
  by (cases c) auto

lemma float_le_cases:
  assumes "float_le a b"
  obtains (finite) x y where "a = Finite x" "b = Finite y" "x \<le> y"
    | (upper) "a \<noteq> NaN" "b = PosInf"
    | (lower) "a = NegInf" "b \<noteq> NaN"
  using assms by (cases a; cases b) auto

lemma py_round2_not_NaN: "a \<noteq> NaN \<Longrightarrow> py_round2 a \<noteq> NaN"
  by (cases a) (auto simp: to_double_not_NaN)

lemma py_round2_mono:
  assumes "float_le a b"
  shows "float_le (py_round2 a) (py_round2 b)"
  using assms
proof (cases rule: float_le_cases)
  case (finite x y)
  then have "x * 100 \<le> y * 100" by simp
  then have "round_half_even (x * 100) \<le> round_half_even (y * 100)" by (rule rhe_mono)
  then have "(of_int (round_half_even (x * 100)) :: rat) / 100
      \<le> of_int (round_half_even (y * 100)) / 100" by simp
  from to_double_mono[OF this] show ?thesis using finite by simp
next
  case upper
  then show ?thesis using py_round2_not_NaN[of a] by (simp add: float_le_PosInf)
next
  case lower
  then show ?thesis using py_round2_not_NaN[of b] by (simp add: float_le_NegInf)
qed

lemma float_add_not_NaN: "a \<noteq> NaN \<Longrightarrow> float_add (Finite s) a \<noteq> NaN"
  by (cases a) (auto simp: to_double_not_NaN)

lemma float_add_mono:
  assumes "float_le a b"
  shows "float_le (float_add (Finite s) a) (float_add (Finite s) b)"
  using assms
proof (cases rule: float_le_cases)
  case (finite x y)
  then have "s + x \<le> s + y" by simp
  from to_double_mono[OF this] show ?thesis using finite by simp
next
  case upper
  then show ?thesis using float_add_not_NaN[of a s] by (simp add: float_le_PosInf)
next
  case lower
  then show ?thesis using float_add_not_NaN[of b s] by (simp add: float_le_NegInf)
qed

lemma float_of_int_mono_val:
  "i \<le> j \<Longrightarrow> round_binary64 (of_int i) \<le> round_binary64 (of_int j)"
  by (intro rb_mono) simp

lemma part_time_mono:
  assumes "0 \<le> t" "i \<le> j"
  shows "float_le (part_time (Finite s) (Finite t) i) (part_time (Finite s) (Finite t) j)"
proof -
  have "round_binary64 (of_int (int i)) \<le> round_binary64 (of_int (int j))"
    using assms(2) by (intro float_of_int_mono_val) simp
  then have "round_binary64 (of_int (int i)) * t \<le> round_binary64 (of_int (int j)) * t"
    using assms(1) by (rule mult_right_mono)
  then have "float_le (float_mul (float_of_int (int i)) (Finite t))
      (float_mul (float_of_int (int j)) (Finite t))"
    unfolding float_of_int_def float_mul.simps by (rule to_double_mono)
  then have "float_le (float_add (Finite s) (float_mul (float_of_int (int i)) (Finite t)))
      (float_add (Finite s) (float_mul (float_of_int (int j)) (Finite t)))"
    by (rule float_add_mono)
  then show ?thesis unfolding part_time_def by (rule py_round2_mono)
qed

lemma rb_1: "round_binary64 1 = 1"
  by (rule rb_exactI[where k=0 and n="2 ^ 52"]) simp_all

lemma time_per_part_finite:
  assumes "0 \<le> d" "d < 2 ^ 1024" "round_binary64 d = d"
  shows "\<exists>t. time_per_part (Finite d) n = Finite t \<and> 0 \<le> t"
proof (cases "n > 0")
  case True
  let ?N = "round_binary64 (of_int (int n))"
  have "round_binary64 1 \<le> ?N" using True by (intro rb_mono) simp
  then have N: "1 \<le> ?N" by (simp add: rb_1)
  then have "d / ?N \<le> d" using assms(1)
    by (metis div_by_1 frac_le order_refl zero_less_one)
  then have "round_binary64 (d / ?N) \<le> d" using rb_mono[of "d / ?N" d] assms(3) by simp
  moreover have "0 \<le> round_binary64 (d / ?N)" using N assms(1) by (intro rb_nonneg) simp
  ultimately have "to_double (d / ?N) = Finite (round_binary64 (d / ?N))"
    using assms(2) by (intro to_double_FiniteI) auto
  then show ?thesis
    using True \<open>0 \<le> round_binary64 (d / ?N)\<close>
    by (simp add: time_per_part_def float_of_int_def)
next
  case False
  then show ?thesis by (simp add: time_per_part_def)
qed

lemma float_sub_finiteD:
  assumes "is_finite (float_sub a b)"
  shows "\<exists>x y. a = Finite x \<and> b = Finite y"
  using assms by (cases a; cases b) auto

lemma py_round2_finiteD:
  assumes "py_round2 a = Finite v"
  shows "\<exists>x. a = Finite x"
  using assms by (cases a) auto

lemma is_finite_conv: "is_finite a \<longleftrightarrow> (\<exists>x. a = Finite x)"
  by (cases a) auto

lemma sorted_wrt_map_upt:
  assumes "\<And>i j. i \<le> j \<Longrightarrow> R (f i) (f j)"
  shows "sorted_wrt R (map f [0..<n])"
proof (induction n)
  case 0
  then show ?case by simp
next
  case (Suc n)
  have "\<forall>x \<in> set (map f [0..<n]). R x (f n)" using assms by auto
  with Suc show ?case by (simp add: sorted_wrt_append)
qed

lemma part_times_sorted:
  assumes "float_le a b"
    and "is_finite (float_sub (py_round2 b) (py_round2 a))"
  shows "sorted_wrt float_le
    (map (part_time (py_round2 a) (time_per_part (float_sub (py_round2 b) (py_round2 a)) n))
       [0..<n])"
proof -
  from float_sub_finiteD[OF assms(2)] obtain ev sv
    where ev: "py_round2 b = Finite ev" and sv: "py_round2 a = Finite sv" by blast
  from py_round2_mono[OF assms(1)] have le: "sv \<le> ev" by (simp add: ev sv)
  from assms(2) obtain d where d: "to_double (ev - sv) = Finite d"
    by (auto simp: ev sv is_finite_conv)
  from to_double_FiniteD[OF d] have dv: "d = round_binary64 (ev - sv)" "\<bar>d\<bar> < 2 ^ 1024" .
  have d0: "0 \<le> d" unfolding dv(1) using le by (intro rb_nonneg) simp
  have "round_binary64 d = d" unfolding dv(1) by (rule rb_idem)
  moreover have "d < 2 ^ 1024" using dv(2) by linarith
  ultimately obtain t where t: "time_per_part (Finite d) n = Finite t" "0 \<le> t"
    using time_per_part_finite[OF d0, of n] by blast
  show ?thesis
    unfolding ev sv float_sub.simps d t(1)
    by (rule sorted_wrt_map_upt) (rule part_time_mono[OF t(2)])
qed

subsection \<open>Evaluating the float operations\<close>

text \<open>
  In the normal range \<open>round_binary64 x\<close> is determined by the binade \<open>k\<close> of \<open>x\<close> and the
  integer nearest to \<open>x / 2 ^ (k - 52)\<close> (lemmas \<open>rb_eqI\<close> and \<open>rb_exactI\<close>); the lemmas
  below evaluate it from these two numbers. The double nearest to \<open>10 ^ 308\<close> is
  \<open>5010420900022432 * 2 ^ 971\<close>.
\<close>

lemma to_double_1: "to_double 1 = Finite 1"
  by (rule to_double_FiniteI[OF rb_1]) simp

lemma rb_2: "round_binary64 (2) = 2"
  by (rule rb_exactI[where k="1" and n="4503599627370496"]) simp_all

lemma to_double_2: "to_double (2) = Finite (2)"
  by (rule to_double_FiniteI[OF rb_2]) simp

lemma rb_3: "round_binary64 (3) = 3"
  by (rule rb_exactI[where k="1" and n="6755399441055744"]) simp_all

lemma to_double_3: "to_double (3) = Finite (3)"
  by (rule to_double_FiniteI[OF rb_3]) simp

lemma rb_10: "round_binary64 (10) = 10"
  by (rule rb_exactI[where k="3" and n="5629499534213120"]) simp_all

lemma to_double_10: "to_double (10) = Finite (10)"
  by (rule to_double_FiniteI[OF rb_10]) simp

lemma rb_10_3: "round_binary64 (10 / 3) = 7505999378950827 / 2251799813685248"
  by (rule trans[OF rb_eqI[where k="1" and n="7505999378950827"]]) simp_all

lemma to_double_10_3: "to_double (10 / 3) = Finite (7505999378950827 / 2251799813685248)"
  by (rule to_double_FiniteI[OF rb_10_3]) simp

lemma rb_tpp: "round_binary64 (7505999378950827 / 2251799813685248) = 7505999378950827 / 2251799813685248"
  by (rule rb_exactI[where k="1" and n="7505999378950827"]) simp_all

lemma to_double_tpp: "to_double (7505999378950827 / 2251799813685248) = Finite (7505999378950827 / 2251799813685248)"
  by (rule to_double_FiniteI[OF rb_tpp]) simp

lemma rb_tpp2: "round_binary64 (7505999378950827 / 1125899906842624) = 7505999378950827 / 1125899906842624"
  by (rule rb_exactI[where k="2" and n="7505999378950827"]) simp_all

lemma to_double_tpp2: "to_double (7505999378950827 / 1125899906842624) = Finite (7505999378950827 / 1125899906842624)"
  by (rule to_double_FiniteI[OF rb_tpp2]) simp

lemma rhe_tpp_100: "round_half_even (187649984473770675 / 562949953421312) = 333"
  by (rule rhe_eqI) simp_all

lemma rhe_tpp2_100: "round_half_even (187649984473770675 / 281474976710656) = 667"
  by (rule rhe_eqI) simp_all

lemma rb_333: "round_binary64 (333 / 100) = 1874623344892969 / 562949953421312"
  by (rule trans[OF rb_eqI[where k="1" and n="7498493379571876"]]) simp_all

lemma to_double_333: "to_double (333 / 100) = Finite (1874623344892969 / 562949953421312)"
  by (rule to_double_FiniteI[OF rb_333]) simp

lemma rb_334: "round_binary64 (167 / 50) = 940126422213591 / 281474976710656"
  by (rule trans[OF rb_eqI[where k="1" and n="7521011377708728"]]) simp_all

lemma to_double_334: "to_double (167 / 50) = Finite (940126422213591 / 281474976710656)"
  by (rule to_double_FiniteI[OF rb_334]) simp

lemma rb_0004: "round_binary64 (1 / 250) = 1152921504606847 / 288230376151711744"
  by (rule trans[OF rb_eqI[where k="- 8" and n="4611686018427388"]]) simp_all

lemma to_double_0004: "to_double (1 / 250) = Finite (1152921504606847 / 288230376151711744)"
  by (rule to_double_FiniteI[OF rb_0004]) simp

lemma rb_10004: "round_binary64 (2501 / 250) = 5631751334026805 / 562949953421312"
  by (rule trans[OF rb_eqI[where k="3" and n="5631751334026805"]]) simp_all

lemma to_double_10004: "to_double (2501 / 250) = Finite (5631751334026805 / 562949953421312)"
  by (rule to_double_FiniteI[OF rb_10004]) simp

lemma rhe_A_100: "round_half_even (28823037615171175 / 72057594037927936) = 0"
  by (rule rhe_eqI) simp_all

lemma rhe_B_100: "round_half_even (140793783350670125 / 140737488355328) = 1000"
  by (rule rhe_eqI) simp_all

lemma rb_B_A: "round_binary64 (2882303761517117313 / 288230376151711744) = 10"
  by (rule trans[OF rb_eqI[where k="3" and n="5629499534213120"]]) simp_all

lemma to_double_B_A: "to_double (2882303761517117313 / 288230376151711744) = Finite (10)"
  by (rule to_double_FiniteI[OF rb_B_A]) simp

lemma rb_A_Q: "round_binary64 (961920842010312703 / 288230376151711744) = 58710988892231 / 17592186044416"
  by (rule trans[OF rb_eqI[where k="1" and n="7515006578205568"]]) simp_all

lemma to_double_A_Q: "to_double (961920842010312703 / 288230376151711744) = Finite (58710988892231 / 17592186044416)"
  by (rule to_double_FiniteI[OF rb_A_Q]) simp

lemma rhe_U_100: "round_half_even (1467774722305775 / 4398046511104) = 334"
  by (rule rhe_eqI) simp_all

lemma rhe_X_100: "round_half_even (12024010525128907725 / 36028797018963968) = 334"
  by (rule rhe_eqI) simp_all

lemma rb_huge: "round_binary64 (10 ^ 308) = 5010420900022432 * 2 ^ 971"
  by (rule trans[OF rb_eqI[where k="1023" and n="5010420900022432"]]) simp_all

lemma rb_H: "round_binary64 (5010420900022432 * 2 ^ 971) = 5010420900022432 * 2 ^ 971"
  by (rule rb_exactI[where k="1023" and n="5010420900022432"]) simp_all

lemma rb_2H: "round_binary64 (5010420900022432 * 2 ^ 972) = 5010420900022432 * 2 ^ 972"
  by (rule rb_exactI[where k="1024" and n="5010420900022432"]) simp_all

lemma to_double_huge: "to_double (10 ^ 308) = Finite (5010420900022432 * 2 ^ 971)"
  by (rule to_double_FiniteI[OF rb_huge]) simp

lemma to_double_neg_huge: "to_double (- (10 ^ 308)) = Finite (- (5010420900022432 * 2 ^ 971))"
  by (rule to_double_FiniteI) (simp_all only: rb_minus rb_huge, simp)

lemma to_double_H:
  "to_double (5010420900022432 * 2 ^ 971) = Finite (5010420900022432 * 2 ^ 971)"
  by (rule to_double_FiniteI[OF rb_H]) simp

lemma to_double_neg_H:
  "to_double (- (5010420900022432 * 2 ^ 971)) = Finite (- (5010420900022432 * 2 ^ 971))"
  by (rule to_double_FiniteI) (simp_all only: rb_minus rb_H, simp)

lemma to_double_2H: "to_double (5010420900022432 * 2 ^ 972) = PosInf"
  unfolding to_double_def rb_2H by simp

lemma py_round2_of_int: "py_round2 (Finite (of_int n)) = to_double (of_int n)"
proof -
  have "round_half_even (of_int n * 100) = n * 100"
    using rhe_of_int[of "n * 100"] by simp
  then show ?thesis by simp
qed

lemma py_round2_H:
  "py_round2 (Finite (5010420900022432 * 2 ^ 971)) = Finite (5010420900022432 * 2 ^ 971)"
proof -
  have "py_round2 (Finite (of_int (5010420900022432 * 2 ^ 971)))
      = to_double (of_int (5010420900022432 * 2 ^ 971))"
    by (rule py_round2_of_int)
  then have "py_round2 (Finite (5010420900022432 * 2 ^ 971))
      = to_double (5010420900022432 * 2 ^ 971)"
    by (simp only: of_int_mult of_int_numeral of_int_power)
  then show ?thesis by (simp only: to_double_H)
qed

lemma py_round2_neg_H:
  "py_round2 (Finite (- (5010420900022432 * 2 ^ 971)))
     = Finite (- (5010420900022432 * 2 ^ 971))"
proof -
  have "py_round2 (Finite (of_int (- (5010420900022432 * 2 ^ 971))))
      = to_double (of_int (- (5010420900022432 * 2 ^ 971)))"
    by (rule py_round2_of_int)
  then have "py_round2 (Finite (- (5010420900022432 * 2 ^ 971)))
      = to_double (- (5010420900022432 * 2 ^ 971))"
    by (simp only: of_int_mult of_int_numeral of_int_power of_int_minus)
  then show ?thesis by (simp only: to_double_neg_H)
qed

section \<open>Properties of resolve_model_path\<close>

lemma find_snapshot_none:
  "\<forall>snapshot \<in> set snaps. \<not> has_model_bin fs (path_join sdir snapshot) \<Longrightarrow>
   find_snapshot fs sdir snaps = None"
  by (induction snaps) simp_all

text \<open>
  Claim C8: an identifier that is not one of the short names of \<open>model_map\<close>, and a short
  name for which the snapshots directory is missing or lists no directory that holds
  \<open>model.bin\<close>, is returned unchanged.
\<close>

theorem resolve_model_path_unchanged:
  assumes "model_map model_name = None \<or>
    (\<exists>model_folder. model_map model_name = Some model_folder \<and>
       (\<not> isdir fs (snapshots_dir fs model_folder) \<or>
        (\<forall>snapshot \<in> set (listdir fs (snapshots_dir fs model_folder)).
           \<not> (isdir fs (path_join (snapshots_dir fs model_folder) snapshot) \<and>
              path_exists fs
                (path_join (path_join (snapshots_dir fs model_folder) snapshot) ''model.bin'')))))"
  shows "resolve_model_path fs model_name = model_name"
  using assms
proof (elim disjE exE conjE)
  assume "model_map model_name = None"
  then show ?thesis by (simp add: resolve_model_path_def)
next
  fix model_folder
  assume m: "model_map model_name = Some model_folder"
  assume "\<not> isdir fs (snapshots_dir fs model_folder)"
  with m show ?thesis by (simp add: resolve_model_path_def)
next
  fix model_folder
  assume m: "model_map model_name = Some model_folder"
  assume "\<forall>snapshot \<in> set (listdir fs (snapshots_dir fs model_folder)).
           \<not> (isdir fs (path_join (snapshots_dir fs model_folder) snapshot) \<and>
              path_exists fs
                (path_join (path_join (snapshots_dir fs model_folder) snapshot) ''model.bin''))"
  then have "find_snapshot fs (snapshots_dir fs model_folder)
      (listdir fs (snapshots_dir fs model_folder)) = None"
    by (intro find_snapshot_none) (simp add: has_model_bin_def)
  with m show ?thesis by (simp add: resolve_model_path_def Let_def)
qed

theorem resolve_model_path_unchanged_witness:
  "model_map ''Systran/faster-whisper-base'' = None \<and>
   resolve_model_path empty_fs ''Systran/faster-whisper-base'' = ''Systran/faster-whisper-base'' \<and>
   model_map ''base'' = Some ''models--Systran--faster-whisper-base'' \<and>
   \<not> isdir empty_fs (snapshots_dir empty_fs ''models--Systran--faster-whisper-base'') \<and>
   resolve_model_path empty_fs ''base'' = ''base''"
proof -
  have a: "model_map ''Systran/faster-whisper-base'' = None"
    by (simp add: model_map_def)
  have b: "model_map ''base'' = Some ''models--Systran--faster-whisper-base''"
    by (simp add: model_map_def)
  have c: "\<not> isdir empty_fs (snapshots_dir empty_fs ''models--Systran--faster-whisper-base'')"
    by (simp add: empty_fs_def)
  from a have "resolve_model_path empty_fs ''Systran/faster-whisper-base'' = ''Systran/faster-whisper-base''"
    by (intro resolve_model_path_unchanged) simp
  moreover from b c have "resolve_model_path empty_fs ''base'' = ''base''"
    by (intro resolve_model_path_unchanged) simp
  ultimately show ?thesis using a b c by simp
qed

section \<open>Properties of the conversion loop\<close>

lemma split_entries_times:
  "map sub_time (split_entries s e parts) =
     map (part_time s (time_per_part (float_sub e s) (length parts))) [0..<length parts]"
proof -
  let ?g = "part_time s (time_per_part (float_sub e s) (length parts))"
  have a: "map sub_time (map (\<lambda>(j, part). \<lparr>sub_time = ?g j, sub_text = part\<rparr>) xs)
      = map ?g (map fst xs)" for xs :: "(nat \<times> pystr) list"
    by (induction xs) auto
  have "map fst (enumerate 0 parts) = [0..<length parts]"
    by (simp only: enumerate_eq_zip) simp
  with a[of "enumerate 0 parts"] show ?thesis
    by (simp only: split_entries_def Let_def)
qed


lemma split_entries_texts: "map sub_text (split_entries s e parts) = parts"
proof -
  have a: "map sub_text (map (\<lambda>(j, part). \<lparr>sub_time = g j, sub_text = part\<rparr>) xs)
      = map snd xs" for xs :: "(nat \<times> pystr) list" and g
    by (induction xs) auto
  have "map snd (enumerate 0 parts) = parts"
    by (simp only: enumerate_eq_zip) simp
  with a[of _ "enumerate 0 parts"] show ?thesis
    by (simp only: split_entries_def Let_def)
qed


lemma long_split: "split_text long_text 25 =
  Some [[97, 97, 97, 44],
        [98, 98, 98, 98, 98, 98, 98, 98, 98, 98, 98, 98, 98, 98, 98, 98, 98, 98, 98, 98, 98, 98, 98, 98, 98],
        [99, 99, 99]]"
  by (simp add: long_text_def split_loop_long split_loop_short split_eval)

lemma long_text_stripped: "py_strip long_text = long_text"
  by (simp add: long_text_def py_strip_def py_lstrip_def py_rstrip_def py_isspace_def)

lemma length_long_text: "length long_text = 32"
  by (simp add: long_text_def)

lemma rhe_0: "round_half_even 0 = 0"
  using rhe_of_int[of 0] by simp

lemma rhe_numeral: "round_half_even (numeral k) = numeral k"
  using rhe_of_int[of "numeral k"] by simp


lemma py_round2_0: "py_round2 (Finite 0) = Finite 0"
  by (simp add: rhe_0 to_double_0)

lemma py_round2_10: "py_round2 (Finite 10) = Finite 10"
proof -
  have "round_half_even (10 * 100) = 1000" by (rule rhe_eqI) simp_all
  then show ?thesis by (simp add: to_double_10)
qed

lemma py_round2_0004: "py_round2 (to_double (1 / 250)) = Finite 0"
  by (simp add: to_double_0004 rhe_A_100 to_double_0)

lemma py_round2_10004: "py_round2 (to_double (2501 / 250)) = Finite 10"
  by (simp add: to_double_10004 rhe_B_100 to_double_10)

lemma entries_example:
  "split_entries (Finite 0) (Finite 10) [a, b, c] =
     [\<lparr>sub_time = Finite 0, sub_text = a\<rparr>,
      \<lparr>sub_time = to_double (333 / 100), sub_text = b\<rparr>,
      \<lparr>sub_time = to_double (667 / 100), sub_text = c\<rparr>]"
  by (simp add: split_entries_def Let_def time_per_part_def part_time_def
      float_of_int_def to_double_0 to_double_1 to_double_2 to_double_3 to_double_10
      to_double_10_3 to_double_tpp to_double_tpp2 rhe_tpp_100 rhe_tpp2_100 rhe_0 rhe_numeral
      rb_0 rb_1 rb_2 rb_3)

lemma process_example:
  assumes "py_round2 (seg_start seg) = Finite 0" "py_round2 (seg_end seg) = Finite 10"
    "seg_text seg = long_text"
  shows "process_segment seg =
     Some [\<lparr>sub_time = Finite 0, sub_text = [97, 97, 97, 44]\<rparr>,
      \<lparr>sub_time = to_double (333 / 100), sub_text = [98, 98, 98, 98, 98, 98, 98, 98, 98, 98, 98, 98, 98, 98, 98, 98, 98, 98, 98, 98, 98, 98, 98, 98, 98]\<rparr>,
      \<lparr>sub_time = to_double (667 / 100), sub_text = [99, 99, 99]\<rparr>]"
  by (simp add: process_segment_def assms long_text_stripped length_long_text MAX_TEXT_LENGTH_def
      long_split entries_example)

lemma times_example:
  "map (\<lambda>j. py_round2 (float_add (Finite 0) (float_mul (float_of_int (int j))
       (float_truediv (float_sub (Finite 10) (Finite 0)) (float_of_int (int 3)))))) [0, 1, 2]
   = [Finite 0, to_double (333 / 100), to_double (667 / 100)]"
  by (simp add: float_of_int_def to_double_0 to_double_1 to_double_2 to_double_3 to_double_10
      to_double_10_3 to_double_tpp to_double_tpp2 rhe_tpp_100 rhe_tpp2_100 rhe_0 rhe_numeral
      rb_0 rb_1 rb_2 rb_3)

subsection \<open>Order of the times of one segment\<close>

text \<open>
  The difference of the rounded end and the rounded start is a finite float whenever both
  times are finite and of magnitude at most \<open>2 ^ 1022\<close>.
\<close>

lemma rb_pow1022: "round_binary64 (2 ^ 1022) = 2 ^ 1022"
  by (rule rb_exactI[where k="1022" and n="4503599627370496"]) simp_all

lemma rb_pow1023: "round_binary64 (2 ^ 1023) = 2 ^ 1023"
  by (rule rb_exactI[where k="1023" and n="4503599627370496"]) simp_all

lemma py_round2_pow1022: "py_round2 (Finite (2 ^ 1022)) = Finite (2 ^ 1022)"
proof -
  have "py_round2 (Finite (of_int (2 ^ 1022))) = to_double (of_int (2 ^ 1022))"
    by (rule py_round2_of_int)
  then have "py_round2 (Finite (2 ^ 1022)) = to_double (2 ^ 1022)"
    by (simp only: of_int_numeral of_int_power)
  also have "\<dots> = Finite (2 ^ 1022)"
    by (rule to_double_FiniteI[OF rb_pow1022]) simp
  finally show ?thesis .
qed

lemma py_round2_neg_pow1022: "py_round2 (Finite (- (2 ^ 1022))) = Finite (- (2 ^ 1022))"
proof -
  have "py_round2 (Finite (of_int (- (2 ^ 1022)))) = to_double (of_int (- (2 ^ 1022)))"
    by (rule py_round2_of_int)
  then have "py_round2 (Finite (- (2 ^ 1022))) = to_double (- (2 ^ 1022))"
    by (simp only: of_int_numeral of_int_power of_int_minus)
  also have "\<dots> = Finite (- (2 ^ 1022))"
    by (rule to_double_FiniteI) (simp_all only: rb_minus rb_pow1022, simp)
  finally show ?thesis .
qed

lemma py_round2_bounded:
  assumes "\<bar>x\<bar> \<le> 2 ^ 1022"
  obtains v where "py_round2 (Finite x) = Finite v" "\<bar>v\<bar> \<le> 2 ^ 1022"
proof -
  have "float_le (Finite x) (Finite (2 ^ 1022))" "float_le (Finite (- (2 ^ 1022))) (Finite x)"
    using assms by simp_all
  from py_round2_mono[OF this(1)] py_round2_mono[OF this(2)]
  have b: "float_le (py_round2 (Finite x)) (Finite (2 ^ 1022))"
    "float_le (Finite (- (2 ^ 1022))) (py_round2 (Finite x))"
    by (simp_all only: py_round2_pow1022 py_round2_neg_pow1022)
  then obtain v where v: "py_round2 (Finite x) = Finite v"
    by (cases "py_round2 (Finite x)") simp_all
  with b have "\<bar>v\<bar> \<le> 2 ^ 1022" by simp
  with v show ?thesis by (rule that)
qed

lemma duration_finite:
  assumes "\<bar>s\<bar> \<le> 2 ^ 1022" "\<bar>e\<bar> \<le> 2 ^ 1022"
  shows "is_finite (float_sub (py_round2 (Finite e)) (py_round2 (Finite s)))"
proof -
  from py_round2_bounded[OF assms(1)] obtain u
    where u: "py_round2 (Finite s) = Finite u" "\<bar>u\<bar> \<le> 2 ^ 1022" .
  from py_round2_bounded[OF assms(2)] obtain v
    where v: "py_round2 (Finite e) = Finite v" "\<bar>v\<bar> \<le> 2 ^ 1022" .
  have p: "(2::rat) ^ 1023 = 2 * 2 ^ 1022" by simp
  have "v - u \<le> 2 ^ 1023" "- (2 ^ 1023) \<le> v - u"
    unfolding p using u(2) v(2) by linarith+
  from rb_mono[OF this(1)] rb_mono[OF this(2)]
  have "round_binary64 (v - u) \<le> 2 ^ 1023" "- (2 ^ 1023) \<le> round_binary64 (v - u)"
    by (simp_all only: rb_minus rb_pow1023)
  moreover have "(2::rat) ^ 1023 < 2 ^ 1024" by simp
  ultimately have "\<bar>round_binary64 (v - u)\<bar> < 2 ^ 1024" by linarith
  then have "to_double (v - u) = Finite (round_binary64 (v - u))"
    by (intro to_double_FiniteI) simp_all
  then show ?thesis unfolding u(1) v(1) by simp
qed

text \<open>The segment from \<open>-1e308\<close> s to \<open>1e308\<close> s.\<close>

lemma huge_duration:
  "float_sub (Finite (5010420900022432 * 2 ^ 971)) (Finite (- (5010420900022432 * 2 ^ 971)))
     = PosInf"
proof -
  have "(5010420900022432 * 2 ^ 971 - - (5010420900022432 * 2 ^ 971) :: rat)
      = 5010420900022432 * 2 ^ 972" by simp
  then show ?thesis unfolding float_sub.simps by (simp only: to_double_2H)
qed

lemma huge_times:
  "map (part_time (Finite (- (5010420900022432 * 2 ^ 971))) (time_per_part PosInf 3)) [0, 1, 2]
     = [NaN, PosInf, PosInf]"
  by (simp add: part_time_def time_per_part_def float_of_int_def rb_0 rb_1 rb_2 rb_3)

lemma huge_entries:
  "process_segment huge_segment =
     Some [\<lparr>sub_time = NaN, sub_text = [97, 97, 97, 44]\<rparr>,
      \<lparr>sub_time = PosInf, sub_text = [98, 98, 98, 98, 98, 98, 98, 98, 98, 98, 98, 98, 98, 98, 98, 98, 98, 98, 98, 98, 98, 98, 98, 98, 98]\<rparr>,
      \<lparr>sub_time = PosInf, sub_text = [99, 99, 99]\<rparr>]"
proof -
  have u: "[0..<3] = [0, 1, 2]" by (simp add: upt_rec)
  let ?s = "Finite (- (5010420900022432 * 2 ^ 971))" and ?e = "Finite (5010420900022432 * 2 ^ 971)"
  let ?parts = "[[97, 97, 97, 44],
        [98, 98, 98, 98, 98, 98, 98, 98, 98, 98, 98, 98, 98, 98, 98, 98, 98, 98, 98, 98, 98, 98, 98, 98, 98],
        [99, 99, 99]] :: pystr list"
  have s: "py_round2 (seg_start huge_segment) = ?s"
    by (simp only: huge_segment_def segment.select_convs to_double_neg_huge py_round2_neg_H)
  have e: "py_round2 (seg_end huge_segment) = ?e"
    by (simp only: huge_segment_def segment.select_convs to_double_huge py_round2_H)
  have l: "seg_text huge_segment = long_text"
    by (simp add: huge_segment_def)
  have p: "process_segment huge_segment = Some (split_entries ?s ?e ?parts)"
    unfolding process_segment_def Let_def s e l
    by (simp add: long_text_stripped length_long_text MAX_TEXT_LENGTH_def long_split)
  have n: "length ?parts = 3" by simp
  have t: "map sub_time (split_entries ?s ?e ?parts) = [NaN, PosInf, PosInf]"
    unfolding split_entries_times huge_duration n u by (rule huge_times)
  have x: "map sub_text (split_entries ?s ?e ?parts) = ?parts"
    by (rule split_entries_texts)
  have "length (split_entries ?s ?e ?parts) = 3"
    using x by (metis length_map length_Cons list.size(3) numeral_3_eq_3)
  then obtain a b c where abc: "split_entries ?s ?e ?parts = [a, b, c]"
    by (auto simp: length_Suc_conv numeral_3_eq_3)
  from t x have "a = \<lparr>sub_time = NaN, sub_text = [97, 97, 97, 44]\<rparr>"
    "b = \<lparr>sub_time = PosInf, sub_text = [98, 98, 98, 98, 98, 98, 98, 98, 98, 98, 98, 98, 98, 98, 98, 98, 98, 98, 98, 98, 98, 98, 98, 98, 98]\<rparr>"
    "c = \<lparr>sub_time = PosInf, sub_text = [99, 99, 99]\<rparr>"
    unfolding abc by simp_all
  with p abc show ?thesis by simp
qed

text \<open>
  Claim C6 says that for a segment with \<open>end \<ge> start\<close> the times of the entries derived
  from it are non-decreasing in the order in which they are appended. The start and the end
  of \<open>huge_segment\<close> are the finite floats \<open>-1e308\<close> and \<open>1e308\<close>, and the end is not less
  than the start. Their difference overflows to \<open>inf\<close>, so does the time per part, and
  \<open>0 * inf\<close> is NaN: the three entries carry the times NaN, \<open>inf\<close> and \<open>inf\<close>, and
  \<open>nan <= inf\<close> is false.
\<close>

theorem segment_times_counterexample:
  "is_finite (seg_start huge_segment) \<and> is_finite (seg_end huge_segment) \<and>
   float_le (seg_start huge_segment) (seg_end huge_segment) \<and>
   process_segment huge_segment =
     Some [\<lparr>sub_time = NaN, sub_text = [97, 97, 97, 44]\<rparr>,
      \<lparr>sub_time = PosInf, sub_text = [98, 98, 98, 98, 98, 98, 98, 98, 98, 98, 98, 98, 98, 98, 98, 98, 98, 98, 98, 98, 98, 98, 98, 98, 98]\<rparr>,
      \<lparr>sub_time = PosInf, sub_text = [99, 99, 99]\<rparr>] \<and>
   \<not> sorted_wrt float_le (map sub_time (the (process_segment huge_segment)))"
proof -
  have "is_finite (seg_start huge_segment)" "is_finite (seg_end huge_segment)"
    "float_le (seg_start huge_segment) (seg_end huge_segment)"
    by (simp_all only: huge_segment_def segment.select_convs to_double_huge to_double_neg_huge,
        simp_all)
  moreover have "\<not> sorted_wrt float_le (map sub_time (the (process_segment huge_segment)))"
    unfolding huge_entries by simp
  ultimately show ?thesis using huge_entries by (intro conjI)
qed

text \<open>
  Claim C6 as amended: for a segment with \<open>end \<ge> start\<close> for which the difference of the
  rounded end and the rounded start is a finite float (the subtraction does not overflow,
  and neither time is an infinity or NaN; magnitudes up to \<open>2 ^ 1022\<close> suffice, lemma
  \<open>duration_finite\<close>), the entries derived from it are produced, and their times are
  non-decreasing (\<open><=\<close> on floats) in the order in which they are appended.
\<close>

theorem segment_times_sorted:
  assumes "float_le (seg_start seg) (seg_end seg)"
    and "is_finite (float_sub (py_round2 (seg_end seg)) (py_round2 (seg_start seg)))"
  shows "\<exists>entries. process_segment seg = Some entries \<and>
    sorted_wrt float_le (map sub_time entries)"
proof (cases "int (length (py_strip (seg_text seg))) > MAX_TEXT_LENGTH")
  case True
  have "(1::int) \<le> MAX_TEXT_LENGTH" by (simp add: MAX_TEXT_LENGTH_def)
  from split_loop_returns[OF this, of "py_strip (seg_text seg)"] True
  obtain parts where parts: "split_text (py_strip (seg_text seg)) MAX_TEXT_LENGTH = Some parts"
    by (auto simp: split_text_def)
  let ?s = "py_round2 (seg_start seg)" and ?e = "py_round2 (seg_end seg)"
  have "sorted_wrt float_le (map sub_time (split_entries ?s ?e parts))"
    unfolding split_entries_times by (rule part_times_sorted[OF assms])
  with True parts show ?thesis
    by (simp add: process_segment_def Let_def)
next
  case False
  then show ?thesis by (simp add: process_segment_def Let_def)
qed

theorem segment_times_sorted_witness:
  "float_le (seg_start long_segment) (seg_end long_segment) \<and>
   is_finite (float_sub (py_round2 (seg_end long_segment)) (py_round2 (seg_start long_segment))) \<and>
   (\<exists>entries. process_segment long_segment = Some entries \<and>
      sorted_wrt float_le (map sub_time entries))"
proof -
  have h: "float_le (seg_start long_segment) (seg_end long_segment)"
    by (simp add: long_segment_def)
  have f: "is_finite (float_sub (py_round2 (seg_end long_segment))
      (py_round2 (seg_start long_segment)))"
    by (simp add: long_segment_def py_round2_0 py_round2_10 to_double_10 del: py_round2.simps)
  from segment_times_sorted[OF h f] h f show ?thesis by (intro conjI)
qed

subsection \<open>The times of the chunks\<close>

text \<open>
  Claim C5 gives the time of the chunk at index \<open>j\<close> of \<open>n\<close> as
  \<open>start + j * (end - start) / n\<close>, rounded to two decimal places, for the start and end
  of the segment. The segment from 0.004 s to 10.004 s is split into three chunks with
  the times 0.0, 3.33 and 6.67, while the formula gives 3.34 for the chunk at index 1,
  in float arithmetic and in exact arithmetic alike: the program rounds the start and
  the end to two decimal places before it divides.
\<close>

theorem chunk_time_counterexample:
  "process_segment shifted_segment =
     Some [\<lparr>sub_time = Finite 0, sub_text = [97, 97, 97, 44]\<rparr>,
      \<lparr>sub_time = to_double (333 / 100), sub_text = [98, 98, 98, 98, 98, 98, 98, 98, 98, 98, 98, 98, 98, 98, 98, 98, 98, 98, 98, 98, 98, 98, 98, 98, 98]\<rparr>,
      \<lparr>sub_time = to_double (667 / 100), sub_text = [99, 99, 99]\<rparr>] \<and>
   spec_chunk_time (seg_start shifted_segment) (seg_end shifted_segment) 3 1 = to_double (334 / 100) \<and>
   spec_chunk_time_exact (seg_start shifted_segment) (seg_end shifted_segment) 3 1 = to_double (334 / 100) \<and>
   to_double (333 / 100) \<noteq> to_double (334 / 100)"
proof -
  have "process_segment shifted_segment =
     Some [\<lparr>sub_time = Finite 0, sub_text = [97, 97, 97, 44]\<rparr>,
      \<lparr>sub_time = to_double (333 / 100), sub_text = [98, 98, 98, 98, 98, 98, 98, 98, 98, 98, 98, 98, 98, 98, 98, 98, 98, 98, 98, 98, 98, 98, 98, 98, 98]\<rparr>,
      \<lparr>sub_time = to_double (667 / 100), sub_text = [99, 99, 99]\<rparr>]"
    by (rule process_example) (simp_all add: shifted_segment_def py_round2_0004 py_round2_10004)
  moreover have "spec_chunk_time (seg_start shifted_segment) (seg_end shifted_segment) 3 1
      = to_double (334 / 100)"
    by (simp add: shifted_segment_def spec_chunk_time_def float_of_int_def rb_1 rb_3
        to_double_0004 to_double_10004 to_double_B_A to_double_1 to_double_3 to_double_10
        to_double_10_3 to_double_A_Q rhe_U_100)
  moreover have "spec_chunk_time_exact (seg_start shifted_segment) (seg_end shifted_segment) 3 1
      = to_double (334 / 100)"
    by (simp add: shifted_segment_def to_double_0004 to_double_10004 rhe_X_100)
  moreover have "to_double (333 / 100) \<noteq> to_double (334 / 100)"
    by (simp add: to_double_333 to_double_334)
  ultimately show ?thesis by (intro conjI)
qed

text \<open>
  Claim C5 as amended: when the trimmed text of a segment is longer than 25 characters
  and is split into \<open>n\<close> chunks, \<open>n\<close> is positive and the entry at index \<open>j\<close> carries the
  chunk at index \<open>j\<close> and the time \<open>round(s + j * ((e - s) / n), 2)\<close> in float arithmetic,
  where \<open>s\<close> and \<open>e\<close> are the start and the end of the segment, each rounded to two
  decimal places first. For the start 0.0, the end 10.0 and three chunks the times are the
  floats 0.0, 3.33 and 6.67.
\<close>

theorem chunk_times:
  assumes "int (length (py_strip (seg_text seg))) > MAX_TEXT_LENGTH"
  shows "\<exists>parts entries.
    split_text (py_strip (seg_text seg)) MAX_TEXT_LENGTH = Some parts \<and> 0 < length parts \<and>
    process_segment seg = Some entries \<and> map sub_text entries = parts \<and>
    map sub_time entries =
      map (\<lambda>j. py_round2 (float_add (py_round2 (seg_start seg))
                 (float_mul (float_of_int (int j))
                    (float_truediv (float_sub (py_round2 (seg_end seg)) (py_round2 (seg_start seg)))
                       (float_of_int (int (length parts)))))))
        [0..<length parts] \<and>
    (seg_start seg = Finite 0 \<and> seg_end seg = Finite 10 \<and> length parts = 3 \<longrightarrow>
       map sub_time entries = [Finite 0, to_double (333 / 100), to_double (667 / 100)])"
proof -
  let ?t = "py_strip (seg_text seg)"
  let ?s = "py_round2 (seg_start seg)" and ?e = "py_round2 (seg_end seg)"
  have "(1::int) \<le> MAX_TEXT_LENGTH" by (simp add: MAX_TEXT_LENGTH_def)
  from split_loop_nonempty[OF this assms] assms
  obtain parts where parts: "split_text ?t MAX_TEXT_LENGTH = Some parts" "0 < length parts"
    by (auto simp: split_text_def)
  let ?es = "split_entries ?s ?e parts"
  have p: "process_segment seg = Some ?es"
    using assms parts(1) by (simp add: process_segment_def Let_def)
  have "map sub_time ?es =
      map (part_time ?s (time_per_part (float_sub ?e ?s) (length parts))) [0..<length parts]"
    by (rule split_entries_times)
  also have "\<dots> = map (\<lambda>j. py_round2 (float_add ?s (float_mul (float_of_int (int j))
                    (float_truediv (float_sub ?e ?s) (float_of_int (int (length parts)))))))
        [0..<length parts]"
    using parts(2) by (simp add: part_time_def time_per_part_def)
  finally have times: "map sub_time ?es =
      map (\<lambda>j. py_round2 (float_add ?s (float_mul (float_of_int (int j))
                    (float_truediv (float_sub ?e ?s) (float_of_int (int (length parts)))))))
        [0..<length parts]" .
  have ex: "map sub_time ?es = [Finite 0, to_double (333 / 100), to_double (667 / 100)]"
    if "seg_start seg = Finite 0" "seg_end seg = Finite 10" "length parts = 3"
  proof -
    have u: "[0..<3] = [0, 1, 2]" by (simp add: upt_rec)
    have "map sub_time ?es =
      map (\<lambda>j. py_round2 (float_add (Finite 0) (float_mul (float_of_int (int j))
        (float_truediv (float_sub (Finite 10) (Finite 0)) (float_of_int (int 3)))))) [0, 1, 2]"
      using times unfolding that u py_round2_0 py_round2_10 .
    also have "\<dots> = [Finite 0, to_double (333 / 100), to_double (667 / 100)]"
      by (rule times_example)
    finally show ?thesis .
  qed
  have ex': "seg_start seg = Finite 0 \<and> seg_end seg = Finite 10 \<and> length parts = 3 \<longrightarrow>
       map sub_time ?es = [Finite 0, to_double (333 / 100), to_double (667 / 100)]"
    by (intro impI, elim conjE, rule ex)
  show ?thesis
    by (rule exI[of _ parts], rule exI[of _ ?es], intro conjI, rule parts(1), rule parts(2),
        rule p, rule split_entries_texts, rule times, rule ex')
qed

theorem chunk_times_witness:
  "int (length (py_strip (seg_text long_segment))) > MAX_TEXT_LENGTH \<and>
   seg_start long_segment = Finite 0 \<and> seg_end long_segment = Finite 10 \<and>
   (\<exists>entries. process_segment long_segment = Some entries \<and> length entries = 3 \<and>
      map sub_time entries = [Finite 0, to_double (333 / 100), to_double (667 / 100)])"
proof -
  have h: "int (length (py_strip (seg_text long_segment))) > MAX_TEXT_LENGTH"
    by (simp add: long_segment_def long_text_stripped length_long_text MAX_TEXT_LENGTH_def)
  have s0: "seg_start long_segment = Finite 0" and e0: "seg_end long_segment = Finite 10"
    by (simp_all add: long_segment_def)
  from chunk_times[OF h] obtain parts where
    "\<exists>entries.
      split_text (py_strip (seg_text long_segment)) MAX_TEXT_LENGTH = Some parts \<and>
      0 < length parts \<and> process_segment long_segment = Some entries \<and>
      map sub_text entries = parts \<and>
      map sub_time entries =
        map (\<lambda>j. py_round2 (float_add (py_round2 (seg_start long_segment))
                 (float_mul (float_of_int (int j))
                    (float_truediv (float_sub (py_round2 (seg_end long_segment))
                        (py_round2 (seg_start long_segment)))
                       (float_of_int (int (length parts)))))))
          [0..<length parts] \<and>
      (seg_start long_segment = Finite 0 \<and> seg_end long_segment = Finite 10 \<and> length parts = 3 \<longrightarrow>
         map sub_time entries = [Finite 0, to_double (333 / 100), to_double (667 / 100)])" ..
  then obtain entries where all:
     "split_text (py_strip (seg_text long_segment)) MAX_TEXT_LENGTH = Some parts \<and>
      0 < length parts \<and> process_segment long_segment = Some entries \<and>
      map sub_text entries = parts \<and>
      map sub_time entries =
        map (\<lambda>j. py_round2 (float_add (py_round2 (seg_start long_segment))
                 (float_mul (float_of_int (int j))
                    (float_truediv (float_sub (py_round2 (seg_end long_segment))
                        (py_round2 (seg_start long_segment)))
                       (float_of_int (int (length parts)))))))
          [0..<length parts] \<and>
      (seg_start long_segment = Finite 0 \<and> seg_end long_segment = Finite 10 \<and> length parts = 3 \<longrightarrow>
         map sub_time entries = [Finite 0, to_double (333 / 100), to_double (667 / 100)])" ..
  note a = all[THEN conjunct1]
    and b = all[THEN conjunct2, THEN conjunct2, THEN conjunct1]
    and c = all[THEN conjunct2, THEN conjunct2, THEN conjunct2, THEN conjunct1]
    and d = all[THEN conjunct2, THEN conjunct2, THEN conjunct2, THEN conjunct2, THEN conjunct2]
  from a have n: "length parts = 3"
    by (auto simp: long_segment_def long_text_stripped MAX_TEXT_LENGTH_def long_split)
  from c n have l: "length entries = 3" by (metis length_map)
  have t: "map sub_time entries = [Finite 0, to_double (333 / 100), to_double (667 / 100)]"
    by (rule d[THEN mp], intro conjI, rule s0, rule e0, rule n)
  show ?thesis
    by (rule conjI, rule h, rule conjI, rule s0, rule conjI, rule e0,
        rule exI[of _ entries], rule conjI, rule b, rule conjI, rule l, rule t)
qed

subsection \<open>Segments without text\<close>

lemma py_strip_hd:
  assumes "py_strip s \<noteq> []"
  shows "\<not> py_isspace (hd (py_strip s))"
proof -
  let ?u = "dropWhile py_isspace s"
  have 3: "py_strip s = rev (dropWhile py_isspace (rev ?u))"
    by (simp add: py_strip_def py_rstrip_def py_lstrip_def)
  have "prefix (py_strip s) ?u"
    unfolding 3 by (metis suffix_dropWhile suffix_to_prefix rev_rev_ident)
  then obtain b where u: "?u = py_strip s @ b" by (auto simp: prefix_def)
  with assms have "?u \<noteq> []" by auto
  then have "\<not> py_isspace (hd ?u)" by (rule hd_dropWhile)
  moreover have "hd ?u = hd (py_strip s)" using u assms by (metis hd_append2)
  ultimately show ?thesis by simp
qed

lemma py_strip_eq_Nil_iff: "py_strip s = [] \<longleftrightarrow> all_space s"
proof
  assume "py_strip s = []"
  then have "filter (\<lambda>c. \<not> py_isspace c) s = []"
    using filter_py_strip[of s] by simp
  then show "all_space s" by (auto simp: all_space_def filter_empty_conv)
next
  assume a: "all_space s"
  show "py_strip s = []"
  proof (rule ccontr)
    assume ne: "py_strip s \<noteq> []"
    then have "hd (py_strip s) \<in> set (py_strip s)" by simp
    then have "hd (py_strip s) \<in> set s"
      using subseq_py_strip[of s] by (metis notin_set_nthsI set_nths_subset subseq_conv_nths subsetD)
    with a py_strip_hd[OF ne] show False by (auto simp: all_space_def)
  qed
qed

lemma chunk_of_nonempty:
  assumes "1 \<le> m" "t \<noteq> []" "\<not> py_isspace (hd t)"
  shows "chunk_of t m \<noteq> []"
proof -
  let ?k = "find_split_pos t m + 1"
  have k: "1 \<le> ?k" using find_split_pos_bounds(1)[OF assms(1), of t] by simp
  then have "py_slice_to t ?k = take (nat ?k) t" by (simp add: py_slice_to_def)
  moreover have "hd t \<in> set (take (nat ?k) t)"
    using k assms(2) by (cases t; cases "nat ?k") auto
  ultimately have "\<not> all_space (py_slice_to t ?k)"
    using assms(3) by (auto simp: all_space_def)
  then show ?thesis by (simp add: chunk_of_def py_strip_eq_Nil_iff)
qed

lemma split_loop_chunks_nonempty:
  "1 \<le> m \<Longrightarrow> t = [] \<or> \<not> py_isspace (hd t) \<Longrightarrow>
   \<exists>r. split_loop t m [] = Some r \<and> [] \<notin> set r"
proof (induction "length t" arbitrary: t rule: less_induct)
  case less
  show ?case
  proof (cases "int (length t) > m")
    case True
    with less.prems have ne: "t \<noteq> []" by auto
    with less.prems have hd: "\<not> py_isspace (hd t)" by simp
    have "rest_of t m = [] \<or> \<not> py_isspace (hd (rest_of t m))"
      unfolding rest_of_def using py_strip_hd by blast
    from less.hyps[OF length_rest_of[OF less.prems(1) True] less.prems(1) this]
    obtain r' where r': "split_loop (rest_of t m) m [] = Some r'" "[] \<notin> set r'" by blast
    have "split_loop t m [] = Some (chunk_of t m # r')"
      by (simp add: split_loop_long[OF less.prems(1) True] r'(1))
    with r'(2) chunk_of_nonempty[OF less.prems(1) ne hd] show ?thesis by auto
  next
    case False
    then show ?thesis by (simp add: split_loop_short)
  qed
qed


text \<open>
  Claim C1 says that a segment whose text is empty after trimming appends no entry. The
  segment \<open>blank_segment\<close> appends one entry, with the empty text.
\<close>

theorem blank_segment_entry_counterexample:
  "py_strip (seg_text blank_segment) = [] \<and>
   process_segment blank_segment = Some [\<lparr>sub_time = Finite 0, sub_text = []\<rparr>] \<and>
   convert_segments [] [blank_segment] = Some [\<lparr>sub_time = Finite 0, sub_text = []\<rparr>]"
  by (simp add: blank_segment_def process_segment_def MAX_TEXT_LENGTH_def py_round2_0
      py_strip_def py_lstrip_def py_rstrip_def py_isspace_def del: py_round2.simps)

text \<open>
  Claim C1 as amended: a segment whose text is empty after trimming appends exactly one
  entry to the data list; its text is empty and its time is the start of the segment
  rounded to two decimal places. A segment whose trimmed text is not empty appends only
  entries whose text is not empty.
\<close>

theorem blank_segment_one_entry:
  "(py_strip (seg_text seg) = [] \<longrightarrow>
      process_segment seg = Some [\<lparr>sub_time = py_round2 (seg_start seg), sub_text = []\<rparr>] \<and>
      convert_segments data [seg] =
        Some (data @ [\<lparr>sub_time = py_round2 (seg_start seg), sub_text = []\<rparr>])) \<and>
   (py_strip (seg_text seg) \<noteq> [] \<longrightarrow>
      (\<exists>entries. process_segment seg = Some entries \<and> (\<forall>e \<in> set entries. sub_text e \<noteq> [])))"
proof (intro conjI impI)
  assume "py_strip (seg_text seg) = []"
  then show "process_segment seg = Some [\<lparr>sub_time = py_round2 (seg_start seg), sub_text = []\<rparr>]"
    by (simp add: process_segment_def MAX_TEXT_LENGTH_def)
  then show "convert_segments data [seg] =
        Some (data @ [\<lparr>sub_time = py_round2 (seg_start seg), sub_text = []\<rparr>])"
    by simp
next
  let ?t = "py_strip (seg_text seg)"
  assume ne: "?t \<noteq> []"
  show "\<exists>entries. process_segment seg = Some entries \<and> (\<forall>e \<in> set entries. sub_text e \<noteq> [])"
  proof (cases "int (length ?t) > MAX_TEXT_LENGTH")
    case True
    have m: "(1::int) \<le> MAX_TEXT_LENGTH" by (simp add: MAX_TEXT_LENGTH_def)
    have "?t = [] \<or> \<not> py_isspace (hd ?t)" using py_strip_hd by blast
    from split_loop_chunks_nonempty[OF m this] True
    obtain parts where parts: "split_text ?t MAX_TEXT_LENGTH = Some parts" "[] \<notin> set parts"
      by (auto simp: split_text_def)
    let ?es = "split_entries (py_round2 (seg_start seg)) (py_round2 (seg_end seg)) parts"
    have p: "process_segment seg = Some ?es"
      using True parts(1) by (simp add: process_segment_def Let_def)
    have "sub_text ` set ?es = set parts"
      using split_entries_texts[of "py_round2 (seg_start seg)" "py_round2 (seg_end seg)" parts]
      by (metis set_map)
    with parts(2) have "\<forall>e \<in> set ?es. sub_text e \<noteq> []" by force
    with p show ?thesis by blast
  next
    case False
    with ne show ?thesis by (simp add: process_segment_def Let_def)
  qed
qed

theorem blank_segment_one_entry_witness:
  "py_strip (seg_text blank_segment) = [] \<and>
   process_segment blank_segment = Some [\<lparr>sub_time = py_round2 (Finite 0), sub_text = []\<rparr>] \<and>
   convert_segments [] [blank_segment] = Some ([] @ [\<lparr>sub_time = py_round2 (Finite 0), sub_text = []\<rparr>]) \<and>
   py_strip (seg_text long_segment) \<noteq> [] \<and>
   (\<exists>entries. process_segment long_segment = Some entries \<and>
      (\<forall>e \<in> set entries. sub_text e \<noteq> []))"
proof -
  have e: "py_strip (seg_text blank_segment) = []"
    by (simp add: blank_segment_def py_strip_def py_lstrip_def py_rstrip_def py_isspace_def)
  have s: "seg_start blank_segment = Finite 0" by (simp add: blank_segment_def)
  have "py_strip (seg_text long_segment) = long_text"
    by (simp add: long_segment_def long_text_stripped)
  moreover have "long_text \<noteq> []" by (simp add: long_text_def)
  ultimately have n: "py_strip (seg_text long_segment) \<noteq> []" by simp
  from blank_segment_one_entry[of blank_segment "[]"] e s
  have a: "process_segment blank_segment = Some [\<lparr>sub_time = py_round2 (Finite 0), sub_text = []\<rparr>] \<and>
   convert_segments [] [blank_segment] = Some ([] @ [\<lparr>sub_time = py_round2 (Finite 0), sub_text = []\<rparr>])"
    by simp
  from blank_segment_one_entry[of long_segment "[]"] n
  have b: "\<exists>entries. process_segment long_segment = Some entries \<and>
      (\<forall>e \<in> set entries. sub_text e \<noteq> [])"
    by blast
  from e a n b show ?thesis by (intro conjI) simp_all
qed

end
